theory Spec2Isabelle
  imports Main "HOL-Library.Word" "HOL-Library.Multiset" "HOL-Library.Monad_Syntax"
begin

section \<open>Cards\<close>

text \<open>
  \<^verbatim>\<open>type Suit byte\<close> and \<^verbatim>\<open>type Rank byte\<close>: unsigned 8-bit values, with the
  named constants \<^verbatim>\<open>iota + 1\<close>. Comparison \<open><\<close> on words is the unsigned one of Go.
\<close>

type_synonym Suit = "8 word"
type_synonym Rank = "8 word"

definition Spades :: Suit where "Spades = 1"
definition Hearts :: Suit where "Hearts = 2"
definition Diamonds :: Suit where "Diamonds = 3"
definition Clubs :: Suit where "Clubs = 4"

definition Ace :: Rank where "Ace = 1"
definition Two :: Rank where "Two = 2"
definition Three :: Rank where "Three = 3"
definition Four :: Rank where "Four = 4"
definition Five :: Rank where "Five = 5"
definition Six :: Rank where "Six = 6"
definition Seven :: Rank where "Seven = 7"
definition Eight :: Rank where "Eight = 8"
definition Nine :: Rank where "Nine = 9"
definition Ten :: Rank where "Ten = 10"
definition Jack :: Rank where "Jack = 11"
definition Queen :: Rank where "Queen = 12"
definition King :: Rank where "King = 13"

text \<open>
  A value of the interface type \<^verbatim>\<open>Card\<close> is \<^verbatim>\<open>nil\<close> (the zero value, what
  \<^verbatim>\<open>make([]Card, n)\<close> fills a slice with), a \<^verbatim>\<open>card{rank, suit}\<close> (the
  constructor \<open>card\<close>, rank first) or a \<^verbatim>\<open>joker{}\<close>. A method called on the nil interface panics: the three accessors return
  \<open>None\<close> there.
\<close>

datatype Card = nil | card Rank Suit | joker

fun Card_Suit :: "Card \<Rightarrow> Suit option" where
  "Card_Suit nil = None"
| "Card_Suit (card r s) = Some s"
| "Card_Suit joker = Some 0"

fun Card_Rank :: "Card \<Rightarrow> Rank option" where
  "Card_Rank nil = None"
| "Card_Rank (card r s) = Some r"
| "Card_Rank joker = Some 0"

fun Card_Joker :: "Card \<Rightarrow> bool option" where
  "Card_Joker nil = None"
| "Card_Joker (card r s) = Some False"
| "Card_Joker joker = Some True"

definition NewCard :: "Rank \<Rightarrow> Suit \<Rightarrow> Card" where
  "NewCard r s = card r s"

definition Joker :: Card where
  "Joker = joker"

section \<open>Slices\<close>

text \<open>
  The two slices of a group are lists. A runtime panic (index out of range, slice bounds
  out of range, \<^verbatim>\<open>make\<close> with a negative length, a method call on nil) is the result
  \<open>None\<close>. Go's \<^verbatim>\<open>int\<close> is modelled by \<open>int\<close>: on every path that does not panic the
  indices lie between \<open>0\<close> and the length of a slice, so no 64-bit operation wraps.

  A slice expression \<^verbatim>\<open>s[i:j]\<close> is checked by Go against the capacity of \<^verbatim>\<open>s\<close>; a
  list has no capacity, and the model checks against the length. The two differ for a
  range that ends beyond the length and inside the capacity. \<^verbatim>\<open>drawAt\<close> and
  \<^verbatim>\<open>InsertAt\<close> panic there all the same, at their next slice expression
  (\<^verbatim>\<open>s[j:]\<close> is checked against the length). \<^verbatim>\<open>flip\<close> on a group whose two arrays
  have the same length panics there in its first loop, unless the range is empty
  (\<^verbatim>\<open>flip(i, i)\<close> with \<open>len < i \<le> cap\<close> returns in Go and is \<open>None\<close> here). No
  statement below is about such a range.
\<close>

definition in_range :: "'a list \<Rightarrow> int \<Rightarrow> bool" where
  "in_range xs i = (0 \<le> i \<and> i < int (length xs))"

text \<open>\<^verbatim>\<open>s[i:j]\<close>, read as a value.\<close>

definition slice :: "'a list \<Rightarrow> int \<Rightarrow> int \<Rightarrow> 'a list option" where
  "slice xs i j =
     (if 0 \<le> i \<and> i \<le> j \<and> j \<le> int (length xs)
      then Some (take (nat (j - i)) (drop (nat i) xs)) else None)"

text \<open>
  \<^verbatim>\<open>copy(dst, src)\<close> copies \<open>min (len dst) (len src)\<close> elements; the result is the new
  content of \<^verbatim>\<open>dst\<close>. \<^verbatim>\<open>copy(s[i:], src)\<close> writes into \<^verbatim>\<open>s\<close> from position \<open>i\<close>
  on, and panics when \<open>i\<close> is not in \<open>[0, len s]\<close>. Where source and destination
  overlap, Go copies as if the source were read first, which is what passing the old
  value of the source does.
\<close>

definition copy :: "'a list \<Rightarrow> 'a list \<Rightarrow> 'a list" where
  "copy dst src = take (length dst) src @ drop (length src) dst"

definition copy_from :: "'a list \<Rightarrow> int \<Rightarrow> 'a list \<Rightarrow> 'a list option" where
  "copy_from s i src =
     (if 0 \<le> i \<and> i \<le> int (length s)
      then Some (take (nat i) s @ copy (drop (nat i) s) src) else None)"

text \<open>\<^verbatim>\<open>make([]T, n)\<close> with the zero value \<open>z\<close>.\<close>

definition make_slice :: "'a \<Rightarrow> int \<Rightarrow> 'a list option" where
  "make_slice z n = (if n < 0 then None else Some (replicate (nat n) z))"

section \<open>Groups\<close>

record group =
  cards :: "Card list"
  flipd :: "bool list"

text \<open>
  \<^verbatim>\<open>NewGroup\<close> keeps the slice it is given (a variadic argument passed as \<^verbatim>\<open>s...\<close> is
  not copied). The model takes its value: a group that shares an array with its maker or
  with another group is outside the model.
\<close>

definition NewGroup :: "Card list \<Rightarrow> group" where
  "NewGroup cs = \<lparr>cards = cs, flipd = replicate (length cs) False\<rparr>"

text \<open>\<^verbatim>\<open>index\<close> rewrites \<^verbatim>\<open>*i\<close>; the model returns the new value.\<close>

definition index :: "group \<Rightarrow> int \<Rightarrow> int" where
  "index g i = (if i < 0 then i + int (length (cards g)) else i)"

definition Len :: "group \<Rightarrow> int" where
  "Len g = int (length (cards g))"

text \<open>
  \<^verbatim>\<open>Swap\<close>: both right-hand sides are read before anything is stored, so an index out of
  range panics with the group unchanged.
\<close>

definition Swap :: "group \<Rightarrow> int \<Rightarrow> int \<Rightarrow> group option" where
  "Swap g i0 j0 =
     (let i = index g i0; j = index g j0 in
      if \<not> (in_range (cards g) i \<and> in_range (cards g) j) then None
      else
        let g1 = g\<lparr>cards := (cards g)[nat i := cards g ! nat j, nat j := cards g ! nat i]\<rparr> in
        if \<not> (in_range (flipd g1) i \<and> in_range (flipd g1) j) then None
        else Some (g1\<lparr>flipd := (flipd g1)[nat i := flipd g1 ! nat j, nat j := flipd g1 ! nat i]\<rparr>))"

definition Flipped :: "group \<Rightarrow> int \<Rightarrow> bool option" where
  "Flipped g i0 =
     (let i = index g i0 in if in_range (flipd g) i then Some (flipd g ! nat i) else None)"

definition SetFlipped :: "group \<Rightarrow> int \<Rightarrow> bool \<Rightarrow> group option" where
  "SetFlipped g i0 faceup =
     (let i = index g i0 in
      if in_range (flipd g) i then Some (g\<lparr>flipd := (flipd g)[nat i := faceup]\<rparr>) else None)"

definition FlippedArray :: "group \<Rightarrow> bool list" where
  "FlippedArray g = copy (replicate (length (flipd g)) False) (flipd g)"

definition Cards :: "group \<Rightarrow> Card list" where
  "Cards g = copy (replicate (length (cards g)) nil) (cards g)"

text \<open>\<^verbatim>\<open>for i := range g.flipd { g.flipd[i] = faceup }\<close>\<close>

function FlipEach_loop :: "bool list \<Rightarrow> bool \<Rightarrow> nat \<Rightarrow> bool list" where
  "FlipEach_loop fl faceup i =
     (if i < length fl then FlipEach_loop (fl[i := faceup]) faceup (i + 1) else fl)"
  by pat_completeness auto
termination
  by (relation "measure (\<lambda>(fl, faceup, i). length fl - i)") auto

declare FlipEach_loop.simps [simp del]

definition FlipEach :: "group \<Rightarrow> bool \<Rightarrow> group" where
  "FlipEach g faceup = g\<lparr>flipd := FlipEach_loop (flipd g) faceup 0\<rparr>"

subsection \<open>flip\<close>

text \<open>The first loop of \<^verbatim>\<open>flip\<close>: \<^verbatim>\<open>for n := i; n < j; n++ { g.flipd[n] = !g.flipd[n] }\<close>.\<close>

function flip_toggle :: "bool list \<Rightarrow> int \<Rightarrow> int \<Rightarrow> bool list option" where
  "flip_toggle fl n j =
     (if n < j then
        (if in_range fl n then flip_toggle (fl[nat n := \<not> fl ! nat n]) (n + 1) j else None)
      else Some fl)"
  by pat_completeness auto
termination
  by (relation "measure (\<lambda>(fl, n, j). nat (j - n))") auto

declare flip_toggle.simps [simp del]

text \<open>
  The second loop. \<^verbatim>\<open>c\<close> and \<^verbatim>\<open>d\<close> are views of \<^verbatim>\<open>g.cards\<close> and \<^verbatim>\<open>g.flipd\<close> that
  start at \<open>i\<close> and have length \<open>len\<close>: \<^verbatim>\<open>c[p]\<close> is \<^verbatim>\<open>g.cards[i+p]\<close>, and a store
  through the view is a store into the group. \<open>p\<close> and \<open>q\<close> are inside the view on
  every iteration (\<open>0 \<le> p < len / 2\<close>), so the loop cannot panic. \<^verbatim>\<open>len(c)/2\<close> rounds
  towards zero, which on a length is \<open>div\<close>.
\<close>

function flip_swap :: "group \<Rightarrow> int \<Rightarrow> int \<Rightarrow> int \<Rightarrow> group" where
  "flip_swap g i len p =
     (if p \<ge> 0 then
        (let q = len - 1 - p;
             g1 = g\<lparr>cards := (cards g)[nat (i + p) := cards g ! nat (i + q),
                                       nat (i + q) := cards g ! nat (i + p)]\<rparr>;
             g2 = g1\<lparr>flipd := (flipd g1)[nat (i + p) := flipd g1 ! nat (i + q),
                                         nat (i + q) := flipd g1 ! nat (i + p)]\<rparr>
         in flip_swap g2 i len (p - 1))
      else g)"
  by pat_completeness auto
termination
  by (relation "measure (\<lambda>(g, i, len, p). nat (p + 1))") auto

declare flip_swap.simps [simp del]

definition flip :: "group \<Rightarrow> int \<Rightarrow> int \<Rightarrow> group option" where
  "flip g i j =
     do {
       fl \<leftarrow> flip_toggle (flipd g) i j;
       let g1 = g\<lparr>flipd := fl\<rparr>;
       c \<leftarrow> slice (cards g1) i j;
       d \<leftarrow> slice (flipd g1) i j;
       Some (flip_swap g1 i (int (length c)) (int (length c) div 2 - 1))
     }"

text \<open>
  What the second loop does to one of the two arrays, taken alone
  (\<open>flip_swap_eq\<close> below); it is used to reason about the loop.
\<close>

function flip_reverse :: "'a list \<Rightarrow> int \<Rightarrow> int \<Rightarrow> int \<Rightarrow> 'a list" where
  "flip_reverse xs i len p =
     (if p \<ge> 0 then
        (let q = len - 1 - p in
         flip_reverse (xs[nat (i + p) := xs ! nat (i + q), nat (i + q) := xs ! nat (i + p)])
           i len (p - 1))
      else xs)"
  by pat_completeness auto
termination
  by (relation "measure (\<lambda>(xs, i, len, p). nat (p + 1))") auto

declare flip_reverse.simps [simp del]

definition Flip :: "group \<Rightarrow> int \<Rightarrow> int \<Rightarrow> group option" where
  "Flip g i j = flip g (index g i) (index g j)"

definition FlipAll :: "group \<Rightarrow> group option" where
  "FlipAll g = flip g 0 (int (length (cards g)))"

definition Card :: "group \<Rightarrow> int \<Rightarrow> Card" where
  "Card g i0 =
     (let i = index g i0 in
      if i < 0 \<or> i \<ge> int (length (cards g)) then nil else cards g ! nat i)"

subsection \<open>Less\<close>

text \<open>
  \<^verbatim>\<open>a && b\<close> evaluates \<open>b\<close> only when \<open>a\<close> is true; either operand may panic.
\<close>

definition and_also :: "bool option \<Rightarrow> bool option \<Rightarrow> bool option" where
  "and_also a b = (case a of None \<Rightarrow> None | Some False \<Rightarrow> Some False | Some True \<Rightarrow> b)"

definition Less :: "group \<Rightarrow> int \<Rightarrow> int \<Rightarrow> bool option" where
  "Less g i0 j0 =
     (let i = index g i0; j = index g j0 in
      if \<not> (in_range (cards g) i \<and> in_range (cards g) j) then None
      else
        let ci = cards g ! nat i; cj = cards g ! nat j in
        do {
          b1 \<leftarrow> and_also (Card_Joker ci) (map_option Not (Card_Joker cj));
          if b1 then Some True
          else do {
            b2 \<leftarrow> and_also (map_option Not (Card_Joker ci)) (Card_Joker cj);
            if b2 then Some False
            else do {
              si \<leftarrow> Card_Suit ci;
              sj \<leftarrow> Card_Suit cj;
              if si = sj then do {
                ri \<leftarrow> Card_Rank ci;
                rj \<leftarrow> Card_Rank cj;
                Some (ri < rj)
              }
              else Some (si < sj)
            }
          }
        })"

subsection \<open>Drawing\<close>

text \<open>
  \<^verbatim>\<open>drawAt\<close> returns the receiver as it is afterwards, and the new group \<^verbatim>\<open>ng\<close>, which
  owns new arrays.
\<close>

definition drawAt :: "group \<Rightarrow> int \<Rightarrow> int \<Rightarrow> (group \<times> group) option" where
  "drawAt g i j =
     do {
       let n = j - i;
       nc \<leftarrow> make_slice nil n;
       nf \<leftarrow> make_slice False n;
       sc \<leftarrow> slice (cards g) i j;
       let ngc = copy nc sc;
       sf \<leftarrow> slice (flipd g) i j;
       let ngf = copy nf sf;
       tc \<leftarrow> slice (cards g) j (int (length (cards g)));
       c1 \<leftarrow> copy_from (cards g) i tc;
       z \<leftarrow> make_slice nil n;
       c2 \<leftarrow> copy_from c1 (int (length c1) - n) z;
       c3 \<leftarrow> slice c2 0 (int (length c2) - n);
       tf \<leftarrow> slice (flipd g) j (int (length (flipd g)));
       f1 \<leftarrow> copy_from (flipd g) i tf;
       f2 \<leftarrow> slice f1 0 (int (length f1) - n);
       Some (\<lparr>cards = c3, flipd = f2\<rparr>, \<lparr>cards = ngc, flipd = ngf\<rparr>)
     }"

definition Draw :: "group \<Rightarrow> int \<Rightarrow> (group \<times> group) option" where
  "Draw g n0 =
     (let n1 = (if n0 < 0 then 0 else n0);
          n = (if n1 > int (length (cards g)) then int (length (cards g)) else n1)
      in drawAt g (int (length (cards g)) - n) (int (length (cards g))))"

definition DrawBottom :: "group \<Rightarrow> int \<Rightarrow> (group \<times> group) option" where
  "DrawBottom g n0 =
     (let n1 = (if n0 < 0 then 0 else n0);
          n = (if n1 > int (length (cards g)) then int (length (cards g)) else n1)
      in drawAt g 0 n)"

definition DrawAt :: "group \<Rightarrow> int \<Rightarrow> int \<Rightarrow> (group \<times> group) option" where
  "DrawAt g i j = drawAt g (index g i) (index g j)"

subsection \<open>Inserting\<close>

text \<open>
  The insert methods take a second group, which may be the receiver itself
  (\<^verbatim>\<open>g.Insert(g)\<close>). Groups therefore live in a store, a list of groups addressed by
  position; \<^verbatim>\<open>g\<close> and \<^verbatim>\<open>ng\<close> are addresses, and every statement of the source reads
  the store as the statements before it left it. An address outside the store is a nil
  receiver, which panics. Each group of the store owns its two arrays.
\<close>

type_synonym store = "group list"

definition deref :: "store \<Rightarrow> nat \<Rightarrow> group option" where
  "deref h a = (if a < length h then Some (h ! a) else None)"

definition Insert :: "store \<Rightarrow> nat \<Rightarrow> nat \<Rightarrow> store option" where
  "Insert h g ng =
     do {
       r \<leftarrow> deref h g;
       a \<leftarrow> deref h ng;
       let h1 = h[g := r\<lparr>cards := cards r @ Cards a\<rparr>];
       r1 \<leftarrow> deref h1 g;
       a1 \<leftarrow> deref h1 ng;
       Some (h1[g := r1\<lparr>flipd := flipd r1 @ FlippedArray a1\<rparr>])
     }"

definition InsertBottom :: "store \<Rightarrow> nat \<Rightarrow> nat \<Rightarrow> store option" where
  "InsertBottom h g ng =
     do {
       r \<leftarrow> deref h g;
       a \<leftarrow> deref h ng;
       c0 \<leftarrow> make_slice nil (int (length (cards r)) + Len a);
       let c1 = copy c0 (Cards a);
       c2 \<leftarrow> copy_from c1 (Len a) (cards r);
       let h1 = h[g := r\<lparr>cards := c2\<rparr>];
       r1 \<leftarrow> deref h1 g;
       a1 \<leftarrow> deref h1 ng;
       d0 \<leftarrow> make_slice False (int (length (flipd r1)) + Len a1);
       let d1 = copy d0 (FlippedArray a1);
       d2 \<leftarrow> copy_from d1 (Len a1) (flipd r1);
       Some (h1[g := r1\<lparr>flipd := d2\<rparr>])
     }"

definition InsertAt :: "store \<Rightarrow> nat \<Rightarrow> int \<Rightarrow> nat \<Rightarrow> store option" where
  "InsertAt h g i0 ng =
     do {
       r \<leftarrow> deref h g;
       let i1 = index r i0;
       let i = (if i1 < 0 then 0
                else if i1 > int (length (cards r)) then int (length (cards r)) else i1);
       a \<leftarrow> deref h ng;
       c0 \<leftarrow> make_slice nil (int (length (cards r)) + Len a);
       lo \<leftarrow> slice (cards r) 0 i;
       let c1 = copy c0 lo;
       c2 \<leftarrow> copy_from c1 i (Cards a);
       hi \<leftarrow> slice (cards r) i (int (length (cards r)));
       c3 \<leftarrow> copy_from c2 (i + Len a) hi;
       let h1 = h[g := r\<lparr>cards := c3\<rparr>];
       r1 \<leftarrow> deref h1 g;
       a1 \<leftarrow> deref h1 ng;
       d0 \<leftarrow> make_slice False (int (length (flipd r1)) + Len a1);
       flo \<leftarrow> slice (flipd r1) 0 i;
       let d1 = copy d0 flo;
       d2 \<leftarrow> copy_from d1 i (FlippedArray a1);
       fhi \<leftarrow> slice (flipd r1) i (int (length (flipd r1)));
       d3 \<leftarrow> copy_from d2 (i + Len a1) fhi;
       Some (h1[g := r1\<lparr>flipd := d3\<rparr>])
     }"

text \<open>
  A draw method called on the group at address \<open>g\<close>: the receiver is updated in place
  and the returned group is a new object, at the first free address.
\<close>

definition call_draw ::
    "(group \<Rightarrow> (group \<times> group) option) \<Rightarrow> store \<Rightarrow> nat \<Rightarrow> (store \<times> nat) option" where
  "call_draw m h g =
     do {
       r \<leftarrow> deref h g;
       (r', ng) \<leftarrow> m r;
       Some (h[g := r'] @ [ng], length h)
     }"

subsection \<open>NewStandardDeck\<close>

function NewStandardDeck_ranks :: "Card list \<Rightarrow> int \<Rightarrow> int \<Rightarrow> Card list option" where
  "NewStandardDeck_ranks cs suit rank =
     (if rank \<le> 13 then
        (let k = (suit - 1) * 13 + (rank - 1) in
         if in_range cs k
         then NewStandardDeck_ranks (cs[nat k := NewCard (of_int rank) (of_int suit)]) suit (rank + 1)
         else None)
      else Some cs)"
  by pat_completeness auto
termination
  by (relation "measure (\<lambda>(cs, suit, rank). nat (14 - rank))") auto

declare NewStandardDeck_ranks.simps [simp del]

function NewStandardDeck_suits :: "Card list \<Rightarrow> int \<Rightarrow> Card list option" where
  "NewStandardDeck_suits cs suit =
     (if suit \<le> 4 then
        (case NewStandardDeck_ranks cs suit 1 of
           None \<Rightarrow> None
         | Some cs' \<Rightarrow> NewStandardDeck_suits cs' (suit + 1))
      else Some cs)"
  by pat_completeness auto
termination
  by (relation "measure (\<lambda>(cs, suit). nat (5 - suit))") auto

declare NewStandardDeck_suits.simps [simp del]

definition NewStandardDeck :: "group option" where
  "NewStandardDeck =
     do {
       c \<leftarrow> make_slice nil 52;
       f \<leftarrow> make_slice False 52;
       c' \<leftarrow> NewStandardDeck_suits c 1;
       Some \<lparr>cards = c', flipd = f\<rparr>
     }"

section \<open>Shuffling\<close>

text \<open>
  \<^verbatim>\<open>crand.Int(crand.Reader, max)\<close> is a parameter: \<open>rnd max\<close> is the number the call
  with bound \<open>max\<close> returns (in \<open>[0, max)\<close> when the source works), or \<open>None\<close> when it
  returns an error. \<^verbatim>\<open>PerfectShuffle\<close> drops the error and calls \<^verbatim>\<open>j.Int64()\<close> on the nil
  result, which panics. The loop calls it once for each \<open>i\<close>, with the bound \<open>i + 1\<close>.
\<close>

function PerfectShuffle_loop :: "(int \<Rightarrow> int option) \<Rightarrow> group \<Rightarrow> int \<Rightarrow> group option" where
  "PerfectShuffle_loop rnd g i =
     (if i > 0 then
        (case rnd (i + 1) of
           None \<Rightarrow> None
         | Some j \<Rightarrow>
             (case Swap g i j of
                None \<Rightarrow> None
              | Some g' \<Rightarrow> PerfectShuffle_loop rnd g' (i - 1)))
      else Some g)"
  by pat_completeness auto
termination
  by (relation "measure (\<lambda>(rnd, g, i). nat i)") auto

declare PerfectShuffle_loop.simps [simp del]

definition PerfectShuffle :: "(int \<Rightarrow> int option) \<Rightarrow> group \<Rightarrow> group option" where
  "PerfectShuffle rnd g = PerfectShuffle_loop rnd g (Len g - 1)"

section \<open>The invariant of a group\<close>

text \<open>The two arrays of a group have the same length.\<close>

definition parallel :: "group \<Rightarrow> bool" where
  "parallel g = (length (flipd g) = length (cards g))"

text \<open>The cards of a group with their directions, bottom to top.\<close>

definition faces :: "group \<Rightarrow> (Card \<times> bool) list" where
  "faces g = zip (cards g) (flipd g)"

text \<open>
  The rank of a card in the order that \<^verbatim>\<open>Less\<close> compares by: a joker comes first, then
  the standard cards by suit, and by rank inside a suit. Used to state what the
  comparator does; it is not a function of the source.
\<close>

definition order_key :: "Card \<Rightarrow> nat" where
  "order_key c = (case c of nil \<Rightarrow> 0 | joker \<Rightarrow> 0 | card r s \<Rightarrow> 1 + unat s * 256 + unat r)"

section \<open>The two loops of flip\<close>


lemma flip_toggle_nth:
  "0 \<le> n \<Longrightarrow> j \<le> int (length fl) \<Longrightarrow>
   \<exists>fl'. flip_toggle fl n j = Some fl' \<and> length fl' = length fl \<and>
     (\<forall>k<length fl. fl' ! k = (if n \<le> int k \<and> int k < j then \<not> fl ! k else fl ! k))"
proof (induction fl n j rule: flip_toggle.induct)
  case (1 fl n j)
  show ?case
  proof (cases "n < j")
    case False
    then show ?thesis by (subst flip_toggle.simps) auto
  next
    case True
    with "1.prems" have r: "in_range fl n" by (simp add: in_range_def)
    let ?fl1 = "fl[nat n := \<not> fl ! nat n]"
    from "1.IH"[OF True r] "1.prems" obtain fl' where
      f: "flip_toggle ?fl1 (n + 1) j = Some fl'" and l: "length fl' = length fl"
      and k: "\<forall>k<length fl. fl' ! k = (if n + 1 \<le> int k \<and> int k < j then \<not> ?fl1 ! k else ?fl1 ! k)"
      by auto
    have "flip_toggle fl n j = Some fl'"
      using True r f by (subst flip_toggle.simps) simp
    moreover have "\<forall>k<length fl. fl' ! k = (if n \<le> int k \<and> int k < j then \<not> fl ! k else fl ! k)"
    proof (intro allI impI)
      fix k assume kl: "k < length fl"
      show "fl' ! k = (if n \<le> int k \<and> int k < j then \<not> fl ! k else fl ! k)"
      proof (cases "k = nat n")
        case True
        then show ?thesis using k kl "1.prems" \<open>n < j\<close> by (auto simp: nth_list_update)
      next
        case False
        then have "int k \<noteq> n" using "1.prems" by auto
        then show ?thesis using k kl False by (auto simp: nth_list_update)
      qed
    qed
    ultimately show ?thesis using l by blast
  qed
qed

lemma flip_reverse_nth:
  "0 \<le> i \<Longrightarrow> - 1 \<le> p \<Longrightarrow> 2 * p + 2 \<le> L \<Longrightarrow> i + L \<le> int (length xs) \<Longrightarrow>
   length (flip_reverse xs i L p) = length xs \<and>
   (\<forall>k<length xs. flip_reverse xs i L p ! k =
      (if (i \<le> int k \<and> int k \<le> i + p) \<or> (i + L - 1 - p \<le> int k \<and> int k < i + L)
       then xs ! nat (2 * i + L - 1 - int k) else xs ! k))"
proof (induction xs i L p rule: flip_reverse.induct)
  case (1 xs i L p)
  show ?case
  proof (cases "p \<ge> 0")
    case False
    with "1.prems" have "p = -1" by simp
    then show ?thesis by (subst flip_reverse.simps, subst flip_reverse.simps) auto
  next
    case True
    define q where "q = L - 1 - p"
    define a where "a = nat (i + p)"
    define b where "b = nat (i + q)"
    let ?xs1 = "xs[a := xs ! b, b := xs ! a]"
    have ab: "a < b" "b < length xs" "int a = i + p" "int b = i + q"
      using "1.prems" True by (auto simp: a_def b_def q_def)
    have step: "flip_reverse xs i L p = flip_reverse ?xs1 i L (p - 1)"
      using True by (subst flip_reverse.simps) (simp add: a_def b_def q_def Let_def)
    have IH: "length (flip_reverse ?xs1 i L (p - 1)) = length ?xs1 \<and>
      (\<forall>k<length ?xs1. flip_reverse ?xs1 i L (p - 1) ! k =
        (if (i \<le> int k \<and> int k \<le> i + (p - 1)) \<or> (i + L - 1 - (p - 1) \<le> int k \<and> int k < i + L)
         then ?xs1 ! nat (2 * i + L - 1 - int k) else ?xs1 ! k))"
      using "1.IH"[OF True, of q] "1.prems" True
      by (simp add: a_def b_def q_def)
    show ?thesis
    proof (intro conjI allI impI)
      show "length (flip_reverse xs i L p) = length xs" using IH step by simp
    next
      fix k assume kl: "k < length xs"
      let ?m = "nat (2 * i + L - 1 - int k)"
      have r: "flip_reverse xs i L p ! k =
        (if (i \<le> int k \<and> int k \<le> i + (p - 1)) \<or> (i + L - 1 - (p - 1) \<le> int k \<and> int k < i + L)
         then ?xs1 ! ?m else ?xs1 ! k)"
        using IH step kl by simp
      consider (lo) "i \<le> int k \<and> int k \<le> i + (p - 1)" | (hi) "i + L - 1 - (p - 1) \<le> int k \<and> int k < i + L"
        | (ka) "k = a" | (kb) "k = b" | (out) "\<not> (i \<le> int k \<and> int k \<le> i + p)" "\<not> (i + L - 1 - p \<le> int k \<and> int k < i + L)"
      proof -
        have "k \<noteq> a \<Longrightarrow> int k \<noteq> i + p" "k \<noteq> b \<Longrightarrow> int k \<noteq> i + L - 1 - p"
          using ab by (auto simp: q_def)
        then show ?thesis using that by (cases "k = a"; cases "k = b") (simp_all, linarith)
      qed
      then show "flip_reverse xs i L p ! k =
        (if (i \<le> int k \<and> int k \<le> i + p) \<or> (i + L - 1 - p \<le> int k \<and> int k < i + L)
         then xs ! ?m else xs ! k)"
      proof cases
        case lo
        then have "?m \<noteq> a" "?m \<noteq> b" using ab "1.prems" by (auto simp: q_def)
        then show ?thesis using r lo by (simp add: nth_list_update)
      next
        case hi
        then have "?m \<noteq> a" "?m \<noteq> b" using ab "1.prems" by (auto simp: q_def)
        then show ?thesis using r hi by (simp add: nth_list_update)
      next
        case ka
        then have m: "?m = b" using ab by (simp add: q_def)
        have n: "\<not> ((i \<le> int k \<and> int k \<le> i + (p - 1)) \<or> (i + L - 1 - (p - 1) \<le> int k \<and> int k < i + L))"
          using ka ab "1.prems" by (auto simp: q_def)
        have "flip_reverse xs i L p ! k = ?xs1 ! k" unfolding r using n by (rule if_not_P)
        then have "flip_reverse xs i L p ! k = ?xs1 ! a" using ka by simp
        also have "\<dots> = xs ! b" using ab by (simp add: nth_list_update)
        finally show ?thesis using ka ab m True by simp
      next
        case kb
        then have m: "?m = a" using ab by (simp add: q_def)
        have n: "\<not> ((i \<le> int k \<and> int k \<le> i + (p - 1)) \<or> (i + L - 1 - (p - 1) \<le> int k \<and> int k < i + L))"
          using kb ab "1.prems" by (auto simp: q_def)
        have "flip_reverse xs i L p ! k = ?xs1 ! k" unfolding r using n by (rule if_not_P)
        then have "flip_reverse xs i L p ! k = ?xs1 ! b" using kb by simp
        also have "\<dots> = xs ! a" using ab by (simp add: nth_list_update)
        finally show ?thesis using kb ab m True "1.prems" by (simp add: q_def)
      next
        case out
        then have "k \<noteq> a" "k \<noteq> b" using ab True "1.prems" by (auto simp: q_def)
        moreover have n: "\<not> ((i \<le> int k \<and> int k \<le> i + (p - 1)) \<or> (i + L - 1 - (p - 1) \<le> int k \<and> int k < i + L))"
          using out by auto
        have "flip_reverse xs i L p ! k = ?xs1 ! k" unfolding r using n by (rule if_not_P)
        ultimately show ?thesis using out by (auto simp: nth_list_update)
      qed
    qed
  qed
qed


lemma flip_reverse_full:
  assumes "0 \<le> i" "0 \<le> L" "i + L \<le> int (length xs)"
  shows "length (flip_reverse xs i L (L div 2 - 1)) = length xs"
    and "k < length xs \<Longrightarrow> flip_reverse xs i L (L div 2 - 1) ! k =
      (if i \<le> int k \<and> int k < i + L then xs ! nat (2 * i + L - 1 - int k) else xs ! k)"
proof -
  let ?p = "L div 2 - 1"
  have p: "- 1 \<le> ?p" "2 * ?p + 2 \<le> L" using assms by auto
  note r = flip_reverse_nth[OF assms(1) p assms(3)]
  show "length (flip_reverse xs i L ?p) = length xs" using r by simp
  assume k: "k < length xs"
  show "flip_reverse xs i L ?p ! k =
      (if i \<le> int k \<and> int k < i + L then xs ! nat (2 * i + L - 1 - int k) else xs ! k)"
  proof (cases "(i \<le> int k \<and> int k \<le> i + ?p) \<or> (i + L - 1 - ?p \<le> int k \<and> int k < i + L)")
    case True
    then have "i \<le> int k \<and> int k < i + L" using assms by auto
    then show ?thesis using r k True by simp
  next
    case False
    have "flip_reverse xs i L ?p ! k =
      (if (i \<le> int k \<and> int k \<le> i + ?p) \<or> (i + L - 1 - ?p \<le> int k \<and> int k < i + L)
       then xs ! nat (2 * i + L - 1 - int k) else xs ! k)" using r k by blast
    then have "flip_reverse xs i L ?p ! k = xs ! k" by (simp only: if_not_P[OF False])
    moreover have "i \<le> int k \<and> int k < i + L \<Longrightarrow> nat (2 * i + L - 1 - int k) = k"
      using False by auto
    ultimately show ?thesis by auto
  qed
qed

lemma flip_swap_eq:
  "flip_swap g i L p =
     g\<lparr>cards := flip_reverse (cards g) i L p, flipd := flip_reverse (flipd g) i L p\<rparr>"
proof (induction g i L p rule: flip_swap.induct)
  case (1 g i len p)
  show ?case
  proof (cases "p \<ge> 0")
    case False
    then show ?thesis
      by (subst flip_swap.simps, subst flip_reverse.simps, subst flip_reverse.simps) simp
  next
    case True
    define q where "q = len - 1 - p"
    define g1 where "g1 = g\<lparr>cards := (cards g)[nat (i + p) := cards g ! nat (i + q),
                                       nat (i + q) := cards g ! nat (i + p)]\<rparr>"
    define g2 where "g2 = g1\<lparr>flipd := (flipd g1)[nat (i + p) := flipd g1 ! nat (i + q),
                                         nat (i + q) := flipd g1 ! nat (i + p)]\<rparr>"
    have s: "flip_swap g i len p = flip_swap g2 i len (p - 1)"
      using True by (subst flip_swap.simps) (simp add: Let_def q_def g1_def g2_def)
    have IH: "flip_swap g2 i len (p - 1) =
        g2\<lparr>cards := flip_reverse (cards g2) i len (p - 1),
           flipd := flip_reverse (flipd g2) i len (p - 1)\<rparr>"
      using "1.IH"[OF True q_def g1_def g2_def] .
    have c: "flip_reverse (cards g) i len p = flip_reverse (cards g2) i len (p - 1)"
      using True by (subst flip_reverse.simps) (simp add: Let_def q_def g1_def g2_def)
    have d: "flip_reverse (flipd g) i len p = flip_reverse (flipd g2) i len (p - 1)"
      using True by (subst flip_reverse.simps) (simp add: Let_def q_def g1_def g2_def)
    show ?thesis unfolding s IH c d by (simp add: g1_def g2_def)
  qed
qed

lemma flip_nth:
  assumes w: "parallel g" and r: "0 \<le> i" "i \<le> j" "j \<le> Len g"
  shows "\<exists>g'. flip g i j = Some g' \<and>
     length (cards g') = length (cards g) \<and> length (flipd g') = length (cards g) \<and>
     (\<forall>k<length (cards g).
        cards g' ! k = (if i \<le> int k \<and> int k < j then cards g ! nat (i + j - 1 - int k) else cards g ! k) \<and>
        flipd g' ! k = (if i \<le> int k \<and> int k < j then \<not> flipd g ! nat (i + j - 1 - int k) else flipd g ! k))"
proof -
  have lf: "length (flipd g) = length (cards g)" using w by (simp add: parallel_def)
  have jl: "j \<le> int (length (cards g))" using r by (simp add: Len_def)
  from flip_toggle_nth[of i j "flipd g"] r jl lf obtain fl where
    t: "flip_toggle (flipd g) i j = Some fl" and tl: "length fl = length (cards g)"
    and tn: "\<forall>k<length (cards g). fl ! k = (if i \<le> int k \<and> int k < j then \<not> flipd g ! k else flipd g ! k)"
    by auto
  let ?L = "j - i"
  have sc: "slice (cards g) i j = Some (take (nat ?L) (drop (nat i) (cards g)))"
    and sd: "slice fl i j = Some (take (nat ?L) (drop (nat i) fl))"
    using r jl tl by (simp_all add: slice_def)
  have lc: "int (length (take (nat ?L) (drop (nat i) (cards g)))) = ?L"
    using r jl by auto
  let ?g' = "g\<lparr>cards := flip_reverse (cards g) i ?L (?L div 2 - 1),
               flipd := flip_reverse fl i ?L (?L div 2 - 1)\<rparr>"
  have f: "flip g i j = Some ?g'"
    by (simp add: flip_def t sc sd lc flip_swap_eq Let_def del: length_take length_drop)
  have a: "0 \<le> ?L" "i + ?L \<le> int (length (cards g))" "i + ?L \<le> int (length fl)"
    using r jl tl by auto
  have "length (cards ?g') = length (cards g)" "length (flipd ?g') = length (cards g)"
    using flip_reverse_full(1)[OF r(1) a(1) a(2)] flip_reverse_full(1)[OF r(1) a(1) a(3)] tl by simp_all
  moreover have "\<forall>k<length (cards g).
        cards ?g' ! k = (if i \<le> int k \<and> int k < j then cards g ! nat (i + j - 1 - int k) else cards g ! k) \<and>
        flipd ?g' ! k = (if i \<le> int k \<and> int k < j then \<not> flipd g ! nat (i + j - 1 - int k) else flipd g ! k)"
  proof (intro allI impI)
    fix k assume k: "k < length (cards g)"
    have m: "2 * i + ?L - 1 - int k = i + j - 1 - int k" by simp
    have c: "cards ?g' ! k = (if i \<le> int k \<and> int k < j then cards g ! nat (i + j - 1 - int k) else cards g ! k)"
      using flip_reverse_full(2)[OF r(1) a(1) a(2) k] by (simp add: m)
    have d0: "flipd ?g' ! k = (if i \<le> int k \<and> int k < j then fl ! nat (i + j - 1 - int k) else fl ! k)"
      using flip_reverse_full(2)[OF r(1) a(1) a(3), of k] k tl by (simp add: m)
    have d: "flipd ?g' ! k = (if i \<le> int k \<and> int k < j then \<not> flipd g ! nat (i + j - 1 - int k) else flipd g ! k)"
    proof (cases "i \<le> int k \<and> int k < j")
      case True
      then have "nat (i + j - 1 - int k) < length (cards g)" "i \<le> int (nat (i + j - 1 - int k))"
        "int (nat (i + j - 1 - int k)) < j"
        using r jl by auto
      then show ?thesis using d0 tn True by simp
    next
      case False
      then show ?thesis using d0 tn k by auto
    qed
    show "cards ?g' ! k = (if i \<le> int k \<and> int k < j then cards g ! nat (i + j - 1 - int k) else cards g ! k) \<and>
        flipd ?g' ! k = (if i \<le> int k \<and> int k < j then \<not> flipd g ! nat (i + j - 1 - int k) else flipd g ! k)"
      using c d by blast
  qed
  ultimately show ?thesis using f by blast
qed

lemma flip_twice:
  assumes w: "parallel g" and r: "0 \<le> i" "i \<le> j" "j \<le> Len g"
  shows "\<exists>g'. flip g i j = Some g' \<and> flip g' i j = Some g"
proof -
  from flip_nth[OF w r] obtain g' where f1: "flip g i j = Some g'"
    and l1: "length (cards g') = length (cards g)" "length (flipd g') = length (cards g)"
    and n1: "\<forall>k<length (cards g).
        cards g' ! k = (if i \<le> int k \<and> int k < j then cards g ! nat (i + j - 1 - int k) else cards g ! k) \<and>
        flipd g' ! k = (if i \<le> int k \<and> int k < j then \<not> flipd g ! nat (i + j - 1 - int k) else flipd g ! k)"
    by blast
  have w': "parallel g'" using l1 by (simp add: parallel_def)
  have r': "j \<le> Len g'" using r l1 by (simp add: Len_def)
  from flip_nth[OF w' r(1,2) r'] l1 obtain g'' where f2: "flip g' i j = Some g''"
    and l2: "length (cards g'') = length (cards g)" "length (flipd g'') = length (cards g)"
    and n2: "\<forall>k<length (cards g).
        cards g'' ! k = (if i \<le> int k \<and> int k < j then cards g' ! nat (i + j - 1 - int k) else cards g' ! k) \<and>
        flipd g'' ! k = (if i \<le> int k \<and> int k < j then \<not> flipd g' ! nat (i + j - 1 - int k) else flipd g' ! k)"
    by auto
  have jl: "j \<le> int (length (cards g))" using r by (simp add: Len_def)
  have lf: "length (flipd g) = length (cards g)" using w by (simp add: parallel_def)
  have pt: "cards g'' ! k = cards g ! k \<and> flipd g'' ! k = flipd g ! k" if k: "k < length (cards g)" for k
  proof (cases "i \<le> int k \<and> int k < j")
    case True
    let ?m = "nat (i + j - 1 - int k)"
    have m: "?m < length (cards g)" "i \<le> int ?m \<and> int ?m < j" "nat (i + j - 1 - int ?m) = k"
      using True r jl by auto
    have "cards g'' ! k = cards g' ! ?m" "flipd g'' ! k = (\<not> flipd g' ! ?m)"
      using n2 k True by simp_all
    moreover have "cards g' ! ?m = cards g ! k" "flipd g' ! ?m = (\<not> flipd g ! k)"
      using n1 m by simp_all
    ultimately show ?thesis by simp
  next
    case False
    have "cards g'' ! k = cards g' ! k" "flipd g'' ! k = flipd g' ! k"
      using n2 k by (simp_all only: if_not_P[OF False])
    moreover have "cards g' ! k = cards g ! k" "flipd g' ! k = flipd g ! k"
      using n1 k by (simp_all only: if_not_P[OF False])
    ultimately show ?thesis by simp
  qed
  have "cards g'' = cards g" using l2 pt by (intro nth_equalityI) auto
  moreover have "flipd g'' = flipd g" using l2 lf pt by (intro nth_equalityI) auto
  ultimately have "g'' = g" by simp
  then show ?thesis using f1 f2 by simp
qed

section \<open>The comparator\<close>

lemma Less_order_key:
  assumes "in_range (cards g) (index g i)" "in_range (cards g) (index g j)"
    and "cards g ! nat (index g i) \<noteq> nil" "cards g ! nat (index g j) \<noteq> nil"
  shows "Less g i j = Some (order_key (cards g ! nat (index g i)) < order_key (cards g ! nat (index g j)))"
proof -
  have b: "unat r < 256" for r :: "8 word" using unsigned_less[of r, where ?'a = nat] by simp
  have c2: "(unat si * 256 + unat ri < unat sj * 256 + unat rj) = (unat si < unat sj)"
    if "si \<noteq> sj" for si sj ri rj :: "8 word"
  proof -
    have "unat si \<noteq> unat sj" using that by (simp add: word_unat_eq_iff)
    then show ?thesis using b[of ri] b[of rj] by auto
  qed
  show ?thesis
    using assms
    by (cases "cards g ! nat (index g i)"; cases "cards g ! nat (index g j)")
       (simp_all add: Less_def Let_def and_also_def order_key_def word_less_nat_alt c2)
qed

lemma Less_Some_not_nil:
  assumes "Less g i j = Some b"
  shows "in_range (cards g) (index g i) \<and> in_range (cards g) (index g j) \<and>
         cards g ! nat (index g i) \<noteq> nil \<and> cards g ! nat (index g j) \<noteq> nil"
proof -
  have r: "in_range (cards g) (index g i) \<and> in_range (cards g) (index g j)"
    using assms by (auto simp: Less_def Let_def split: if_splits)
  moreover have "cards g ! nat (index g i) \<noteq> nil"
    using assms r by (cases "cards g ! nat (index g j)") (auto simp: Less_def Let_def and_also_def)
  moreover have "cards g ! nat (index g j) \<noteq> nil"
    using assms r by (cases "cards g ! nat (index g i)") (auto simp: Less_def Let_def and_also_def)
  ultimately show ?thesis by blast
qed

lemma order_key_sorted:
  assumes adj: "\<forall>k. 0 < k \<and> k < Len g \<longrightarrow> Less g k (k - 1) = Some False"
  shows "sorted (map order_key (cards g))"
    and "2 \<le> length (cards g) \<Longrightarrow> nil \<notin> set (cards g)"
proof -
  have step: "order_key (cards g ! n) \<le> order_key (cards g ! Suc n) \<and>
      cards g ! n \<noteq> nil \<and> cards g ! Suc n \<noteq> nil" if n: "Suc n < length (cards g)" for n
  proof -
    let ?k = "int (Suc n)"
    have k: "0 < ?k \<and> ?k < Len g" using n by (simp add: Len_def)
    then have f: "Less g ?k (?k - 1) = Some False" using adj by blast
    have ix: "nat (index g ?k) = Suc n" "nat (index g (?k - 1)) = n" by (simp_all add: index_def)
    from Less_Some_not_nil[OF f] have nn: "in_range (cards g) (index g ?k)"
      "in_range (cards g) (index g (?k - 1))"
      "cards g ! nat (index g ?k) \<noteq> nil" "cards g ! nat (index g (?k - 1)) \<noteq> nil"
      by blast+
    from Less_order_key[OF nn] f
    have "\<not> order_key (cards g ! nat (index g ?k)) < order_key (cards g ! nat (index g (?k - 1)))"
      by simp
    then show ?thesis using nn(3,4) unfolding ix by simp
  qed
  show "sorted (map order_key (cards g))"
    using step by (simp add: sorted_iff_nth_Suc)
  show "nil \<notin> set (cards g)" if l: "2 \<le> length (cards g)"
  proof
    assume "nil \<in> set (cards g)"
    then obtain n where n: "n < length (cards g)" "cards g ! n = nil"
      by (auto simp: in_set_conv_nth)
    show False
    proof (cases n)
      case 0
      then show ?thesis using step[of 0] l n by simp
    next
      case (Suc m)
      then show ?thesis using step[of m] n by simp
    qed
  qed
qed

section \<open>Drawing a range\<close>

lemma copy_replicate: "length xs = n \<Longrightarrow> copy (replicate n z) xs = xs"
  by (simp add: copy_def)

lemma Cards_eq: "Cards g = cards g"
  by (simp add: Cards_def copy_def)

lemma FlippedArray_eq: "FlippedArray g = flipd g"
  by (simp add: FlippedArray_def copy_def)

lemma cut_nat:
  fixes xs :: "'a list"
  assumes "a \<le> b" "b \<le> length xs"
  shows "take a xs @ copy (drop a xs) (drop b xs) =
           take a xs @ drop b xs @ drop (length xs - (b - a)) xs" (is "?A")
    and "length (take a xs @ drop b xs @ ys) = length xs - (b - a) + length ys" (is "?B")
    and "take (length xs - (b - a)) (take a xs @ drop b xs @ ys) = take a xs @ drop b xs" (is "?C")
    and "length ys = b - a \<Longrightarrow>
         copy (drop (length xs - (b - a)) (take a xs @ drop b xs @ ys)) (replicate (b - a) z) =
           replicate (b - a) z" (is "_ \<Longrightarrow> ?D")
proof -
  have "copy (drop a xs) (drop b xs) = drop b xs @ drop (length xs - b) (drop a xs)"
    using assms by (simp add: copy_def)
  moreover have "length xs - b + a = length xs - (b - a)" using assms by simp
  ultimately show ?A by (simp add: add.commute)
  show ?B using assms by simp
  show ?C using assms by simp
  show ?D if "length ys = b - a" using assms that by (simp add: copy_def)
qed


text \<open>Removing the range \<open>[i, j)\<close> from one array, as \<^verbatim>\<open>drawAt\<close> does it.\<close>

lemma cut_range:
  fixes xs :: "'a list"
  assumes "0 \<le> i" "i \<le> j" "j \<le> int (length xs)"
  shows "slice xs i j = Some (take (nat (j - i)) (drop (nat i) xs))"
    and "slice xs j (int (length xs)) = Some (drop (nat j) xs)"
    and "copy_from xs i (drop (nat j) xs) =
           Some (take (nat i) xs @ drop (nat j) xs @ drop (length xs - nat (j - i)) xs)"
    and "int (length (take (nat i) xs @ drop (nat j) xs @ drop (length xs - nat (j - i)) xs)) =
           int (length xs)"
    and "copy_from (take (nat i) xs @ drop (nat j) xs @ drop (length xs - nat (j - i)) xs)
           (int (length xs) - (j - i)) (replicate (nat (j - i)) z) =
           Some (take (nat i) xs @ drop (nat j) xs @ replicate (nat (j - i)) z)"
    and "int (length (take (nat i) xs @ drop (nat j) xs @ replicate (nat (j - i)) z)) =
           int (length xs)"
    and "slice (take (nat i) xs @ drop (nat j) xs @ replicate (nat (j - i)) z) 0
           (int (length xs) - (j - i)) = Some (take (nat i) xs @ drop (nat j) xs)"
    and "slice (take (nat i) xs @ drop (nat j) xs @ drop (length xs - nat (j - i)) xs) 0
           (int (length xs) - (j - i)) = Some (take (nat i) xs @ drop (nat j) xs)"
proof -
  define a b where "a = nat i" and "b = nat j"
  have ab: "a \<le> b" "b \<le> length xs" using assms by (auto simp: a_def b_def)
  have e: "nat (j - i) = b - a" "nat (int (length xs) - (j - i)) = length xs - (b - a)"
    using assms by (auto simp: a_def b_def)
  have k: "0 \<le> int (length xs) - (j - i)" "int (length xs) - (j - i) \<le> int (length xs)"
    using assms by auto
  let ?d = "drop (length xs - (b - a)) xs"
  let ?z = "replicate (b - a) z"
  have ld: "length ?d = b - a" "length ?z = b - a" using ab by simp_all
  have l1: "length (take a xs @ drop b xs @ ?d) = length xs"
    and l2: "length (take a xs @ drop b xs @ ?z) = length xs"
    using ab by simp_all
  show "slice xs i j = Some (take (nat (j - i)) (drop (nat i) xs))"
    using assms by (simp add: slice_def)
  show "slice xs j (int (length xs)) = Some (drop (nat j) xs)"
    using assms by (simp add: slice_def)
  show "copy_from xs i (drop (nat j) xs) =
           Some (take (nat i) xs @ drop (nat j) xs @ drop (length xs - nat (j - i)) xs)"
    unfolding copy_from_def e a_def[symmetric] b_def[symmetric]
    using assms cut_nat(1)[OF ab] by simp
  show "int (length (take (nat i) xs @ drop (nat j) xs @ drop (length xs - nat (j - i)) xs)) =
           int (length xs)"
    unfolding e a_def[symmetric] b_def[symmetric] using l1 by simp
  show "copy_from (take (nat i) xs @ drop (nat j) xs @ drop (length xs - nat (j - i)) xs)
           (int (length xs) - (j - i)) (replicate (nat (j - i)) z) =
           Some (take (nat i) xs @ drop (nat j) xs @ replicate (nat (j - i)) z)"
    unfolding copy_from_def e a_def[symmetric] b_def[symmetric]
    using k cut_nat(3)[OF ab, of ?d] cut_nat(4)[OF ab ld(1), of z] l1 by simp
  show "int (length (take (nat i) xs @ drop (nat j) xs @ replicate (nat (j - i)) z)) =
           int (length xs)"
    unfolding e a_def[symmetric] b_def[symmetric] using l2 by simp
  show "slice (take (nat i) xs @ drop (nat j) xs @ replicate (nat (j - i)) z) 0
           (int (length xs) - (j - i)) = Some (take (nat i) xs @ drop (nat j) xs)"
    unfolding slice_def e a_def[symmetric] b_def[symmetric]
    using k cut_nat(3)[OF ab, of ?z] l2 by (simp add: e)
  show "slice (take (nat i) xs @ drop (nat j) xs @ drop (length xs - nat (j - i)) xs) 0
           (int (length xs) - (j - i)) = Some (take (nat i) xs @ drop (nat j) xs)"
    unfolding slice_def e a_def[symmetric] b_def[symmetric]
    using k cut_nat(3)[OF ab, of ?d] l1 by (simp add: e)
qed


lemma drawAt_eq:
  assumes p: "parallel g" and r: "0 \<le> i" "i \<le> j" "j \<le> Len g"
  shows "drawAt g i j =
     Some (\<lparr>cards = take (nat i) (cards g) @ drop (nat j) (cards g),
            flipd = take (nat i) (flipd g) @ drop (nat j) (flipd g)\<rparr>,
           \<lparr>cards = take (nat (j - i)) (drop (nat i) (cards g)),
            flipd = take (nat (j - i)) (drop (nat i) (flipd g))\<rparr>)"
proof -
  have jc: "j \<le> int (length (cards g))" using r by (simp add: Len_def)
  have jf: "j \<le> int (length (flipd g))" using r p by (simp add: Len_def parallel_def)
  have n: "\<not> j - i < 0" using r by simp
  note c = cut_range[OF r(1,2) jc]
  note f = cut_range[OF r(1,2) jf]
  have lc: "length (take (nat (j - i)) (drop (nat i) (cards g))) = nat (j - i)"
    and lf: "length (take (nat (j - i)) (drop (nat i) (flipd g))) = nat (j - i)"
    using r jc jf by auto
  show ?thesis
    unfolding drawAt_def Let_def make_slice_def
    by (simp only: n if_False bind.bind_lunit c f(1,2,3,4,8) copy_replicate[OF lc] copy_replicate[OF lf])
qed

lemma Draw_eq:
  assumes p: "parallel g"
  shows "Draw g n =
     Some (\<lparr>cards = take (length (cards g) - nat n) (cards g),
            flipd = take (length (cards g) - nat n) (flipd g)\<rparr>,
           \<lparr>cards = drop (length (cards g) - nat n) (cards g),
            flipd = drop (length (cards g) - nat n) (flipd g)\<rparr>)"
proof -
  define N where "N = int (length (cards g))"
  define m where "m = (if (if n < 0 then 0 else n) > N then N else (if n < 0 then 0 else n))"
  have m: "0 \<le> m" "m \<le> N" "nat (N - m) = length (cards g) - nat n" "nat (N - (N - m)) = nat m"
    by (auto simp: m_def N_def)
  have r: "0 \<le> N - m" "N - m \<le> N" "N \<le> Len g" using m by (simp_all add: Len_def N_def)
  have lf: "length (flipd g) = length (cards g)" using p by (simp add: parallel_def)
  have "Draw g n = drawAt g (N - m) N" by (simp add: Draw_def Let_def m_def N_def)
  also have "\<dots> = Some (\<lparr>cards = take (nat (N - m)) (cards g) @ drop (nat N) (cards g),
            flipd = take (nat (N - m)) (flipd g) @ drop (nat N) (flipd g)\<rparr>,
           \<lparr>cards = take (nat (N - (N - m))) (drop (nat (N - m)) (cards g)),
            flipd = take (nat (N - (N - m))) (drop (nat (N - m)) (flipd g))\<rparr>)"
    by (rule drawAt_eq[OF p r])
  also have "\<dots> = Some (\<lparr>cards = take (length (cards g) - nat n) (cards g),
            flipd = take (length (cards g) - nat n) (flipd g)\<rparr>,
           \<lparr>cards = drop (length (cards g) - nat n) (cards g),
            flipd = drop (length (cards g) - nat n) (flipd g)\<rparr>)"
    unfolding m(3,4) using m(1,2) lf by (simp add: N_def m_def)
  finally show ?thesis .
qed

lemma DrawBottom_eq:
  assumes p: "parallel g"
  shows "DrawBottom g n =
     Some (\<lparr>cards = drop (nat n) (cards g), flipd = drop (nat n) (flipd g)\<rparr>,
           \<lparr>cards = take (nat n) (cards g), flipd = take (nat n) (flipd g)\<rparr>)"
proof -
  define N where "N = int (length (cards g))"
  define m where "m = (if (if n < 0 then 0 else n) > N then N else (if n < 0 then 0 else n))"
  have m: "0 \<le> m" "m \<le> N" by (auto simp: m_def N_def)
  have r: "(0::int) \<le> 0" "0 \<le> m" "m \<le> Len g" using m by (simp_all add: Len_def N_def)
  have lf: "length (flipd g) = length (cards g)" using p by (simp add: parallel_def)
  have "DrawBottom g n = drawAt g 0 m" by (simp add: DrawBottom_def Let_def m_def N_def)
  also have "\<dots> = Some (\<lparr>cards = take (nat 0) (cards g) @ drop (nat m) (cards g),
            flipd = take (nat 0) (flipd g) @ drop (nat m) (flipd g)\<rparr>,
           \<lparr>cards = take (nat (m - 0)) (drop (nat 0) (cards g)),
            flipd = take (nat (m - 0)) (drop (nat 0) (flipd g))\<rparr>)"
    by (rule drawAt_eq[OF p r])
  also have "\<dots> = Some (\<lparr>cards = drop (nat n) (cards g), flipd = drop (nat n) (flipd g)\<rparr>,
           \<lparr>cards = take (nat n) (cards g), flipd = take (nat n) (flipd g)\<rparr>)"
    using lf by (auto simp: N_def m_def)
  finally show ?thesis .
qed

section \<open>Swapping and shuffling\<close>

lemma Swap_faces:
  assumes p: "parallel g"
    and r: "in_range (cards g) (index g i)" "in_range (cards g) (index g j)"
  shows "\<exists>g'. Swap g i j = Some g' \<and> parallel g' \<and> length (cards g') = length (cards g) \<and>
     faces g' = (faces g)[nat (index g i) := faces g ! nat (index g j),
                          nat (index g j) := faces g ! nat (index g i)] \<and>
     mset (faces g') = mset (faces g)"
proof -
  define a b where "a = nat (index g i)" and "b = nat (index g j)"
  have lf: "length (flipd g) = length (cards g)" using p by (simp add: parallel_def)
  have ab: "a < length (cards g)" "b < length (cards g)"
    using r by (auto simp: in_range_def a_def b_def)
  let ?g' = "\<lparr>cards = (cards g)[a := cards g ! b, b := cards g ! a],
              flipd = (flipd g)[a := flipd g ! b, b := flipd g ! a]\<rparr>"
  have s: "Swap g i j = Some ?g'"
    using r lf by (simp add: Swap_def Let_def in_range_def a_def b_def)
  have lz: "a < length (zip (cards g) (flipd g))" "b < length (zip (cards g) (flipd g))"
    using ab lf by simp_all
  have f: "faces ?g' = (faces g)[a := faces g ! b, b := faces g ! a]"
    using ab lf by (simp add: faces_def update_zip)
  have "mset ((faces g)[a := faces g ! b, b := faces g ! a]) = mset (faces g)"
    using mset_swap[OF lz(2) lz(1)] by (simp add: faces_def)
  then have "mset (faces ?g') = mset (faces g)" using f by simp
  moreover have "parallel ?g'" "length (cards ?g') = length (cards g)"
    using lf by (simp_all add: parallel_def)
  ultimately show ?thesis using s f unfolding a_def b_def by blast
qed

lemma PerfectShuffle_loop_perm:
  assumes "parallel g" and "i < Len g"
    and "\<forall>k. 0 < k \<and> k \<le> i \<longrightarrow> (\<exists>j. rnd (k + 1) = Some j \<and> 0 \<le> j \<and> j \<le> k)"
  shows "\<exists>g'. PerfectShuffle_loop rnd g i = Some g' \<and> parallel g' \<and>
     length (cards g') = length (cards g) \<and> mset (faces g') = mset (faces g)"
  using assms
proof (induction rnd g i rule: PerfectShuffle_loop.induct)
  case (1 rnd g i)
  show ?case
  proof (cases "i > 0")
    case False
    then show ?thesis using "1.prems"(1) by (subst PerfectShuffle_loop.simps) simp
  next
    case True
    with "1.prems"(3) obtain j where j: "rnd (i + 1) = Some j" "0 \<le> j" "j \<le> i" by blast
    have r: "in_range (cards g) (index g i)" "in_range (cards g) (index g j)"
      using True j "1.prems"(2) by (simp_all add: in_range_def index_def Len_def)
    from Swap_faces[OF "1.prems"(1) r] obtain g1 where g1: "Swap g i j = Some g1" "parallel g1"
      "length (cards g1) = length (cards g)" "mset (faces g1) = mset (faces g)" by blast
    have "i - 1 < Len g1" using "1.prems"(2) g1(3) by (simp add: Len_def)
    moreover have "\<forall>k. 0 < k \<and> k \<le> i - 1 \<longrightarrow> (\<exists>j. rnd (k + 1) = Some j \<and> 0 \<le> j \<and> j \<le> k)"
      using "1.prems"(3) by auto
    ultimately obtain g' where g': "PerfectShuffle_loop rnd g1 (i - 1) = Some g'" "parallel g'"
      "length (cards g') = length (cards g1)" "mset (faces g') = mset (faces g1)"
      using "1.IH"[OF True j(1) g1(1) g1(2)] by blast
    have "PerfectShuffle_loop rnd g i = Some g'"
      using True j(1) g1(1) g'(1) by (subst PerfectShuffle_loop.simps) simp
    then show ?thesis using g' g1 by simp
  qed
qed

text \<open>The loop visits \<open>i = n, n - 1, \<dots>, 1\<close> in this order.\<close>

lemma fold_None:
  "fold (\<lambda>i acc. acc \<bind> f i) is None = None"
  by (induction "is") simp_all

lemma PerfectShuffle_loop_fold:
  "PerfectShuffle_loop rnd g (int n) =
     fold (\<lambda>i acc. acc \<bind> (\<lambda>g. rnd (int i + 1) \<bind> Swap g (int i))) (rev [1..<Suc n]) (Some g)"
proof (induction n arbitrary: g)
  case 0
  show ?case by (subst PerfectShuffle_loop.simps) simp
next
  case (Suc n)
  let ?step = "\<lambda>i acc. acc \<bind> (\<lambda>g. rnd (int i + 1) \<bind> Swap g (int i))"
  have u: "rev [1..<Suc (Suc n)] = Suc n # rev [1..<Suc n]" by simp
  show ?case
  proof (cases "rnd (int (Suc n) + 1)")
    case None
    then show ?thesis
      unfolding u by (subst PerfectShuffle_loop.simps) (simp add: fold_None)
  next
    case (Some j)
    show ?thesis
    proof (cases "Swap g (int (Suc n)) j")
      case None
      then show ?thesis using Some
        unfolding u by (subst PerfectShuffle_loop.simps) (simp add: fold_None)
    next
      case (Some g1)
      have "PerfectShuffle_loop rnd g (int (Suc n)) = PerfectShuffle_loop rnd g1 (int n)"
        using Some \<open>rnd (int (Suc n) + 1) = Some j\<close>
        by (subst PerfectShuffle_loop.simps) simp
      then show ?thesis using Some \<open>rnd (int (Suc n) + 1) = Some j\<close> Suc.IH[of g1]
        unfolding u by simp
    qed
  qed
qed

section \<open>Inserting a group that is not the receiver\<close>

lemma deref_Some: "a < length h \<Longrightarrow> deref h a = Some (h ! a)"
  by (simp add: deref_def)

lemma group_update_both: "(r::group)\<lparr>cards := c, flipd := f\<rparr> = \<lparr>cards = c, flipd = f\<rparr>"
  by (cases r) simp

lemma Insert_distinct:
  assumes "g < length h" "ng < length h" "g \<noteq> ng"
  shows "Insert h g ng =
     Some (h[g := \<lparr>cards = cards (h ! g) @ cards (h ! ng),
                   flipd = flipd (h ! g) @ flipd (h ! ng)\<rparr>])"
  using assms by (simp add: Insert_def deref_def Cards_eq FlippedArray_eq group_update_both)

text \<open>Writing \<open>ys\<close> and then \<open>xs\<close> into a new array of their lengths.\<close>

lemma prepend_copy:
  "copy_from (copy (replicate (length xs + length ys) z) ys) (int (length ys)) xs = Some (ys @ xs)"
  by (simp add: copy_from_def copy_def)

lemma InsertBottom_distinct:
  assumes "g < length h" "ng < length h" "g \<noteq> ng" "parallel (h ! ng)"
  shows "InsertBottom h g ng =
     Some (h[g := \<lparr>cards = cards (h ! ng) @ cards (h ! g),
                   flipd = flipd (h ! ng) @ flipd (h ! g)\<rparr>])"
proof -
  have l: "length (flipd (h ! ng)) = length (cards (h ! ng))"
    using assms(4) by (simp add: parallel_def)
  have m: "make_slice z (int a + int b) = Some (replicate (a + b) z)" for z :: 'a and a b
    by (simp add: make_slice_def nat_add_distrib)
  show ?thesis
    using assms(1,2,3) prepend_copy[of "cards (h ! g)" "cards (h ! ng)" nil]
      prepend_copy[of "flipd (h ! g)" "flipd (h ! ng)" False]
    by (simp add: InsertBottom_def deref_def Cards_eq FlippedArray_eq Len_def m l group_update_both)
qed

text \<open>Splicing \<open>ys\<close> into a new array at position \<open>k\<close> of \<open>xs\<close>.\<close>

lemma splice_copy:
  fixes xs ys :: "'a list"
  assumes "k \<le> length xs" "length ys = n"
  shows "slice xs 0 (int k) = Some (take k xs)"
    and "slice xs (int k) (int (length xs)) = Some (drop k xs)"
    and "copy_from (copy (replicate (length xs + n) z) (take k xs)) (int k) ys =
           Some (take k xs @ ys @ replicate (length xs - k) z)"
    and "copy_from (take k xs @ ys @ replicate (length xs - k) z) (int k + int n) (drop k xs) =
           Some (take k xs @ ys @ drop k xs)"
proof -
  show "slice xs 0 (int k) = Some (take k xs)" using assms by (simp add: slice_def)
  show "slice xs (int k) (int (length xs)) = Some (drop k xs)"
    using assms by (simp add: slice_def)
  have a: "copy (replicate (length xs + n) z) (take k xs) =
      take k xs @ replicate (length xs + n - k) z"
    using assms by (simp add: copy_def)
  show "copy_from (copy (replicate (length xs + n) z) (take k xs)) (int k) ys =
           Some (take k xs @ ys @ replicate (length xs - k) z)"
    unfolding a using assms by (simp add: copy_from_def copy_def)
  have "nat (int k + int n) = k + n" by simp
  then show "copy_from (take k xs @ ys @ replicate (length xs - k) z) (int k + int n) (drop k xs) =
           Some (take k xs @ ys @ drop k xs)"
    using assms by (simp add: copy_from_def copy_def)
qed

lemma InsertAt_distinct:
  assumes "g < length h" "ng < length h" "g \<noteq> ng" "parallel (h ! g)" "parallel (h ! ng)"
  shows "InsertAt h g i ng =
     Some (h[g := \<lparr>cards = take (nat (min (max (index (h ! g) i) 0) (Len (h ! g)))) (cards (h ! g))
                          @ cards (h ! ng)
                          @ drop (nat (min (max (index (h ! g) i) 0) (Len (h ! g)))) (cards (h ! g)),
                   flipd = take (nat (min (max (index (h ! g) i) 0) (Len (h ! g)))) (flipd (h ! g))
                          @ flipd (h ! ng)
                          @ drop (nat (min (max (index (h ! g) i) 0) (Len (h ! g)))) (flipd (h ! g))\<rparr>])"
proof -
  define r a where "r = h ! g" and "a = h ! ng"
  define k where "k = nat (min (max (index r i) 0) (Len r))"
  have lr: "length (flipd r) = length (cards r)" and la: "length (flipd a) = length (cards a)"
    using assms(4,5) by (simp_all add: parallel_def r_def a_def)
  have k: "k \<le> length (cards r)" "k \<le> length (flipd r)"
    using lr by (auto simp: k_def Len_def)
  have ik: "(if index r i < 0 then 0
             else if index r i > int (length (cards r)) then int (length (cards r)) else index r i) = int k"
    by (auto simp: k_def Len_def)
  have m: "make_slice z (int x + int y) = Some (replicate (x + y) z)" for z :: 'a and x y
    by (simp add: make_slice_def nat_add_distrib)
  note c = splice_copy[OF k(1) refl]
  note f = splice_copy[OF k(2) la, unfolded lr]
  have d: "deref h g = Some r" "deref h ng = Some a"
    "deref (h[g := x]) g = Some x" "deref (h[g := x]) ng = Some a" for x
    using assms(1,2,3) by (simp_all add: deref_def r_def a_def)
  have "InsertAt h g i ng =
     Some (h[g := \<lparr>cards = take k (cards r) @ cards a @ drop k (cards r),
                   flipd = take k (flipd r) @ flipd a @ drop k (flipd r)\<rparr>])"
    unfolding InsertAt_def Let_def d bind.bind_lunit ik Cards_eq FlippedArray_eq Len_def m
    by (simp add: c f lr group_update_both)
  then show ?thesis unfolding k_def r_def a_def .
qed

text \<open>What an insert method can change in the store: the receiver.\<close>

lemma length_copy: "length (copy dst src) = length dst"
  by (simp add: copy_def)

lemma Insert_frame:
  assumes "g < length h" "ng < length h"
  shows "\<exists>x. Insert h g ng = Some (h[g := x])"
  using assms by (simp add: Insert_def deref_def) blast

lemma InsertBottom_frame:
  assumes "g < length h" "ng < length h" "g \<noteq> ng"
  shows "\<exists>x. InsertBottom h g ng = Some (h[g := x])"
  using assms
  by (simp add: InsertBottom_def deref_def make_slice_def copy_from_def Len_def length_copy Let_def
        nat_add_distrib) blast

lemma InsertAt_frame:
  assumes "InsertAt h g i ng = Some h'"
  shows "\<exists>x. h' = h[g := x]"
  using assms
  by (auto simp: InsertAt_def Let_def deref_def split: bind_splits if_splits)

lemma call_draw_eq:
  assumes "g < length h" "m (h ! g) = Some (r', d)"
  shows "call_draw m h g = Some (h[g := r'] @ [d], length h)"
  using assms by (simp add: call_draw_def deref_def)

lemma store_restore:
  assumes "g < length h"
  shows "(h[g := r'] @ [d])[g := h ! g] = h @ [d]"
  using assms by (simp add: list_update_append1)

section \<open>The invariant under the methods\<close>

lemma FlipEach_loop_eq:
  "i \<le> length fl \<Longrightarrow> FlipEach_loop fl b i = take i fl @ replicate (length fl - i) b"
proof (induction fl b i rule: FlipEach_loop.induct)
  case (1 fl faceup i)
  show ?case
  proof (cases "i < length fl")
    case False
    with "1.prems" show ?thesis by (subst FlipEach_loop.simps) simp
  next
    case True
    have "FlipEach_loop fl faceup i = FlipEach_loop (fl[i := faceup]) faceup (i + 1)"
      using True by (subst FlipEach_loop.simps) simp
    also have "\<dots> = take (i + 1) (fl[i := faceup]) @ replicate (length fl - (i + 1)) faceup"
      using "1.IH"[OF True] True by simp
    also have "\<dots> = take i fl @ replicate (length fl - i) faceup"
    proof -
      have "take (i + 1) (fl[i := faceup]) = take i fl @ [faceup]"
        using True by (simp add: take_Suc_conv_app_nth)
      moreover have "replicate (length fl - i) faceup = faceup # replicate (length fl - (i + 1)) faceup"
        using True by (cases "length fl - i") simp_all
      ultimately show ?thesis by simp
    qed
    finally show ?thesis .
  qed
qed

lemma FlipEach_eq:
  "FlipEach g b = g\<lparr>flipd := replicate (length (flipd g)) b\<rparr>"
  by (simp add: FlipEach_def FlipEach_loop_eq)

lemma flip_Some_range:
  assumes "flip g i j = Some g'"
  shows "0 \<le> i \<and> i \<le> j \<and> j \<le> Len g"
proof -
  from assms obtain c where "slice (cards g) i j = Some c"
    by (auto simp: flip_def split: bind_splits)
  then show ?thesis by (simp add: slice_def Len_def split: if_splits)
qed

lemma drawAt_Some_range:
  assumes "drawAt g i j = Some x"
  shows "0 \<le> i \<and> i \<le> j \<and> j \<le> Len g"
proof -
  from assms obtain c where "slice (cards g) i j = Some c"
    by (auto simp: drawAt_def Let_def split: bind_splits)
  then show ?thesis by (simp add: slice_def Len_def split: if_splits)
qed

text \<open>
  What holds of the invariant: the methods with one receiver keep the two arrays of the
  same length and move each direction with its card, and so do the insert methods when
  the argument is another group than the receiver.
\<close>

lemma parallel_kept:
  assumes "parallel g"
  shows "Swap g i j = Some g' \<Longrightarrow> parallel g' \<and> mset (faces g') = mset (faces g)"
    and "Flip g i j = Some g' \<Longrightarrow> parallel g' \<and> length (cards g') = length (cards g)"
    and "parallel (FlipEach g b) \<and> cards (FlipEach g b) = cards g"
    and "Draw g n = Some (g', d) \<Longrightarrow> parallel g' \<and> parallel d \<and> faces g' @ faces d = faces g"
    and "DrawBottom g n = Some (g', d) \<Longrightarrow> parallel g' \<and> parallel d \<and> faces d @ faces g' = faces g"
    and "DrawAt g i j = Some (g', d) \<Longrightarrow> parallel g' \<and> parallel d \<and>
           faces d = take (nat (index g j - index g i)) (drop (nat (index g i)) (faces g)) \<and>
           faces g' = take (nat (index g i)) (faces g) @ drop (nat (index g j)) (faces g)"
proof -
  have lf: "length (flipd g) = length (cards g)" using assms by (simp add: parallel_def)
  show "parallel g' \<and> mset (faces g') = mset (faces g)" if s: "Swap g i j = Some g'"
  proof -
    have r: "in_range (cards g) (index g i)" "in_range (cards g) (index g j)"
      using s by (auto simp: Swap_def Let_def split: if_splits)
    from Swap_faces[OF assms r] s show ?thesis by auto
  qed
  show "parallel g' \<and> length (cards g') = length (cards g)" if f: "Flip g i j = Some g'"
  proof -
    have f': "flip g (index g i) (index g j) = Some g'" using f by (simp add: Flip_def)
    from flip_Some_range[OF f'] flip_nth[OF assms, of "index g i" "index g j"] f'
    show ?thesis by (auto simp: parallel_def)
  qed
  show "parallel (FlipEach g b) \<and> cards (FlipEach g b) = cards g"
    using lf by (simp add: FlipEach_eq parallel_def)
  show "parallel g' \<and> parallel d \<and> faces g' @ faces d = faces g" if "Draw g n = Some (g', d)"
    using that lf unfolding Draw_eq[OF assms]
    by (auto simp: parallel_def faces_def take_zip[symmetric] drop_zip[symmetric])
  show "parallel g' \<and> parallel d \<and> faces d @ faces g' = faces g" if "DrawBottom g n = Some (g', d)"
    using that lf unfolding DrawBottom_eq[OF assms]
    by (auto simp: parallel_def faces_def take_zip[symmetric] drop_zip[symmetric])
  show "parallel g' \<and> parallel d \<and>
           faces d = take (nat (index g j - index g i)) (drop (nat (index g i)) (faces g)) \<and>
           faces g' = take (nat (index g i)) (faces g) @ drop (nat (index g j)) (faces g)"
    if da: "DrawAt g i j = Some (g', d)"
  proof -
    have d': "drawAt g (index g i) (index g j) = Some (g', d)" using da by (simp add: DrawAt_def)
    from drawAt_Some_range[OF d'] have r: "0 \<le> index g i" "index g i \<le> index g j" "index g j \<le> Len g"
      by simp_all
    have jl: "nat (index g j) \<le> length (cards g)" "nat (index g i) \<le> nat (index g j)"
      using r by (simp_all add: Len_def)
    show ?thesis
      using d' lf jl unfolding drawAt_eq[OF assms r]
      by (auto simp: parallel_def faces_def take_zip drop_zip)
  qed
qed

lemma parallel_kept_insert:
  assumes "g < length h" "ng < length h" "g \<noteq> ng" "parallel (h ! g)" "parallel (h ! ng)"
  shows "Insert h g ng = Some h' \<Longrightarrow>
           parallel (h' ! g) \<and> faces (h' ! g) = faces (h ! g) @ faces (h ! ng)"
    and "InsertBottom h g ng = Some h' \<Longrightarrow>
           parallel (h' ! g) \<and> faces (h' ! g) = faces (h ! ng) @ faces (h ! g)"
    and "InsertAt h g i ng = Some h' \<Longrightarrow> parallel (h' ! g)"
proof -
  have l: "length (flipd (h ! g)) = length (cards (h ! g))"
    "length (flipd (h ! ng)) = length (cards (h ! ng))"
    using assms(4,5) by (simp_all add: parallel_def)
  show "parallel (h' ! g) \<and> faces (h' ! g) = faces (h ! g) @ faces (h ! ng)"
    if "Insert h g ng = Some h'"
    using that assms(1) l unfolding Insert_distinct[OF assms(1,2,3)]
    by (auto simp: parallel_def faces_def)
  show "parallel (h' ! g) \<and> faces (h' ! g) = faces (h ! ng) @ faces (h ! g)"
    if "InsertBottom h g ng = Some h'"
    using that assms(1) l unfolding InsertBottom_distinct[OF assms(1,2,3,5)]
    by (auto simp: parallel_def faces_def)
  show "parallel (h' ! g)" if "InsertAt h g i ng = Some h'"
    using that assms(1) l unfolding InsertAt_distinct[OF assms(1,2,3,4,5)]
    by (auto simp: parallel_def)
qed

section \<open>The claims\<close>

text \<open>
  C1. For a group whose two arrays have the same length and a range \<open>[i, j)\<close> that is
  valid after each of \<open>i\<close> and \<open>j\<close> has been normalised by \<^verbatim>\<open>index\<close>
  (\<open>0 \<le> i \<le> j \<le> Len\<close>), \<^verbatim>\<open>Flip(i, j)\<close> returns, and rearranges exactly the
  positions of the range: for \<open>0 \<le> k < j - i\<close> the card at \<open>i + k\<close> afterwards is the
  card that was at \<open>j - 1 - k\<close>, with the negation of that card's former direction, and
  every position outside the range keeps its card and its direction.
\<close>

theorem C1_Flip_range:
  assumes "parallel g"
    and "0 \<le> index g i" and "index g i \<le> index g j" and "index g j \<le> Len g"
  shows "\<exists>g'. Flip g i j = Some g' \<and>
     length (cards g') = length (cards g) \<and> length (flipd g') = length (flipd g) \<and>
     (\<forall>k. 0 \<le> k \<and> k < index g j - index g i \<longrightarrow>
        cards g' ! nat (index g i + k) = cards g ! nat (index g j - 1 - k) \<and>
        flipd g' ! nat (index g i + k) = (\<not> flipd g ! nat (index g j - 1 - k))) \<and>
     (\<forall>p. 0 \<le> p \<and> p < Len g \<and> \<not> (index g i \<le> p \<and> p < index g j) \<longrightarrow>
        cards g' ! nat p = cards g ! nat p \<and> flipd g' ! nat p = flipd g ! nat p)"
proof -
  let ?i = "index g i" and ?j = "index g j"
  from flip_nth[OF assms] obtain g' where f: "flip g ?i ?j = Some g'"
    and l: "length (cards g') = length (cards g)" "length (flipd g') = length (cards g)"
    and n: "\<forall>k<length (cards g).
        cards g' ! k = (if ?i \<le> int k \<and> int k < ?j then cards g ! nat (?i + ?j - 1 - int k) else cards g ! k) \<and>
        flipd g' ! k = (if ?i \<le> int k \<and> int k < ?j then \<not> flipd g ! nat (?i + ?j - 1 - int k) else flipd g ! k)"
    by blast
  have jl: "?j \<le> int (length (cards g))" using assms(4) by (simp add: Len_def)
  have inside: "cards g' ! nat (?i + k) = cards g ! nat (?j - 1 - k) \<and>
        flipd g' ! nat (?i + k) = (\<not> flipd g ! nat (?j - 1 - k))"
    if k: "0 \<le> k \<and> k < ?j - ?i" for k
  proof -
    have a: "nat (?i + k) < length (cards g)" "?i \<le> int (nat (?i + k)) \<and> int (nat (?i + k)) < ?j"
      "?i + ?j - 1 - int (nat (?i + k)) = ?j - 1 - k"
      using k assms(2) jl by auto
    show ?thesis using n a(1) by (simp only: if_P[OF a(2)] a(3))
  qed
  have outside: "cards g' ! nat p = cards g ! nat p \<and> flipd g' ! nat p = flipd g ! nat p"
    if p: "0 \<le> p \<and> p < Len g \<and> \<not> (?i \<le> p \<and> p < ?j)" for p
  proof -
    have a: "nat p < length (cards g)" "\<not> (?i \<le> int (nat p) \<and> int (nat p) < ?j)"
      using p by (auto simp: Len_def)
    show ?thesis using n a(1) by (simp only: if_not_P[OF a(2)])
  qed
  have "Flip g i j = Some g'" using f by (simp add: Flip_def)
  moreover have "length (flipd g') = length (flipd g)" using l assms(1) by (simp add: parallel_def)
  ultimately show ?thesis using l(1) inside outside by blast
qed

text \<open>
  The two examples of the specification: \<^verbatim>\<open>Flip(0, 3)\<close> on \<open>[2S, 3S, 4S]\<close>, all face
  down, and \<^verbatim>\<open>Flip(0, 1)\<close> on a group of one card.
\<close>

theorem C1_Flip_range_witness:
  "Flip (NewGroup [card Two Spades, card Three Spades, card Four Spades]) 0 3 =
     Some \<lparr>cards = [card Four Spades, card Three Spades, card Two Spades],
           flipd = [True, True, True]\<rparr> \<and>
   Flip (NewGroup [card King Spades]) 0 1 = Some \<lparr>cards = [card King Spades], flipd = [True]\<rparr>"
proof -
  let ?g = "NewGroup [card Two Spades, card Three Spades, card Four Spades]"
  let ?h = "NewGroup [card King Spades]"
  have pg: "parallel ?g" "0 \<le> index ?g 0" "index ?g 0 \<le> index ?g 3" "index ?g 3 \<le> Len ?g"
    by (simp_all add: parallel_def NewGroup_def index_def Len_def)
  have ph: "parallel ?h" "0 \<le> index ?h 0" "index ?h 0 \<le> index ?h 1" "index ?h 1 \<le> Len ?h"
    by (simp_all add: parallel_def NewGroup_def index_def Len_def)
  have e1: "Flip ?g 0 3 =
     Some \<lparr>cards = [card Four Spades, card Three Spades, card Two Spades],
           flipd = [True, True, True]\<rparr>"
    by code_simp
  have e2: "Flip ?h 0 1 = Some \<lparr>cards = [card King Spades], flipd = [True]\<rparr>"
    by code_simp
  from C1_Flip_range[OF pg] C1_Flip_range[OF ph] show ?thesis
    by - (rule conjI[OF e1 e2])
qed

text \<open>
  C2. On a valid range, \<^verbatim>\<open>Flip(i, j)\<close> applied twice gives back the group: the same
  cards in the same order with the same directions. So does \<^verbatim>\<open>FlipAll\<close> applied twice.
\<close>

theorem C2_Flip_involution:
  assumes "parallel g"
    and "0 \<le> index g i" and "index g i \<le> index g j" and "index g j \<le> Len g"
  shows "(\<exists>g'. Flip g i j = Some g' \<and> Flip g' i j = Some g) \<and>
         (\<exists>g'. FlipAll g = Some g' \<and> FlipAll g' = Some g)"
proof
  from flip_twice[OF assms] obtain g' where f: "flip g (index g i) (index g j) = Some g'"
    "flip g' (index g i) (index g j) = Some g" by blast
  from flip_nth[OF assms] f(1) have "length (cards g') = length (cards g)" by auto
  then have "index g' i = index g i" "index g' j = index g j" by (simp_all add: index_def)
  then show "\<exists>g'. Flip g i j = Some g' \<and> Flip g' i j = Some g"
    using f by (auto simp: Flip_def)
next
  have r: "(0::int) \<le> 0" "0 \<le> Len g" "Len g \<le> Len g" by (simp_all add: Len_def)
  from flip_twice[OF assms(1) r] obtain g' where f: "flip g 0 (Len g) = Some g'"
    "flip g' 0 (Len g) = Some g" by blast
  from flip_nth[OF assms(1) r] f(1) have "length (cards g') = length (cards g)" by auto
  then show "\<exists>g'. FlipAll g = Some g' \<and> FlipAll g' = Some g"
    using f by (auto simp: FlipAll_def Len_def)
qed

theorem C2_Flip_involution_witness:
  "(\<exists>g'. Flip (NewGroup [card Ace Spades, joker, card King Clubs]) (- 2) 3 = Some g' \<and>
         Flip g' (- 2) 3 = Some (NewGroup [card Ace Spades, joker, card King Clubs])) \<and>
   (\<exists>g'. FlipAll (NewGroup [card Ace Spades, joker, card King Clubs]) = Some g' \<and>
         FlipAll g' = Some (NewGroup [card Ace Spades, joker, card King Clubs]))"
proof -
  let ?g = "NewGroup [card Ace Spades, joker, card King Clubs]"
  have h: "parallel ?g" "0 \<le> index ?g (- 2)" "index ?g (- 2) \<le> index ?g 3" "index ?g 3 \<le> Len ?g"
    by (simp_all add: parallel_def NewGroup_def index_def Len_def)
  show ?thesis by (rule C2_Flip_involution[OF h])
qed

text \<open>
  Drawing and inserting back, on a group of the store whose arrays have the same length:
  for every \<open>n\<close>, \<^verbatim>\<open>h := g.Draw(n)\<close> and then \<^verbatim>\<open>g.Insert(h)\<close> return, and leave
  \<open>g\<close> with its original cards and directions; the same holds for
  \<^verbatim>\<open>h := g.DrawBottom(n)\<close> and then \<^verbatim>\<open>g.InsertBottom(h)\<close>, and for
  \<^verbatim>\<open>h := g.DrawAt(0, k)\<close> and then \<^verbatim>\<open>g.InsertAt(0, h)\<close> with \<open>0 \<le> k \<le> Len\<close>.
  The drawn group \<open>h\<close> is a new object, and every group that was in the store is as it
  was.
\<close>

lemma draw_then_insert_parallel:
  assumes "g < length h" and "parallel (h ! g)"
  shows "(\<exists>h1 ng h2. call_draw (\<lambda>r. Draw r n) h g = Some (h1, ng) \<and>
            Insert h1 g ng = Some h2 \<and> deref h2 g = deref h g \<and> take (length h) h2 = h) \<and>
         (\<exists>h1 ng h2. call_draw (\<lambda>r. DrawBottom r n) h g = Some (h1, ng) \<and>
            InsertBottom h1 g ng = Some h2 \<and> deref h2 g = deref h g \<and> take (length h) h2 = h) \<and>
         (0 \<le> k \<and> k \<le> Len (h ! g) \<longrightarrow>
          (\<exists>h1 ng h2. call_draw (\<lambda>r. DrawAt r 0 k) h g = Some (h1, ng) \<and>
            InsertAt h1 g 0 ng = Some h2 \<and> deref h2 g = deref h g \<and> take (length h) h2 = h))"
proof (intro conjI impI)
  let ?r = "h ! g"
  have lf: "length (flipd ?r) = length (cards ?r)" using assms(2) by (simp add: parallel_def)
  have whole: "\<lparr>cards = cards ?r, flipd = flipd ?r\<rparr> = ?r" by simp
  have fin: "deref (h @ [d]) g = deref h g \<and> take (length h) (h @ [d]) = h" for d
    using assms(1) by (simp add: deref_def nth_append)
  {
    let ?a = "length (cards ?r) - nat n"
    let ?r' = "\<lparr>cards = take ?a (cards ?r), flipd = take ?a (flipd ?r)\<rparr>"
    let ?d = "\<lparr>cards = drop ?a (cards ?r), flipd = drop ?a (flipd ?r)\<rparr>"
    let ?h1 = "h[g := ?r'] @ [?d]"
    have c: "call_draw (\<lambda>r. Draw r n) h g = Some (?h1, length h)"
      using call_draw_eq[of g h "\<lambda>r. Draw r n", OF assms(1)] Draw_eq[OF assms(2), of n] by simp
    have "Insert ?h1 g (length h) = Some (?h1[g := \<lparr>cards = cards (?h1 ! g) @ cards (?h1 ! length h),
                   flipd = flipd (?h1 ! g) @ flipd (?h1 ! length h)\<rparr>])"
      using assms(1) by (intro Insert_distinct) simp_all
    also have "\<dots> = Some (?h1[g := ?r])"
      using assms(1) by (simp add: nth_append whole)
    also have "\<dots> = Some (h @ [?d])" by (simp only: store_restore[OF assms(1)])
    finally have "Insert ?h1 g (length h) = Some (h @ [?d])" .
    then show "\<exists>h1 ng h2. call_draw (\<lambda>r. Draw r n) h g = Some (h1, ng) \<and>
            Insert h1 g ng = Some h2 \<and> deref h2 g = deref h g \<and> take (length h) h2 = h"
      using c fin[of ?d] by blast
  }
  {
    let ?r' = "\<lparr>cards = drop (nat n) (cards ?r), flipd = drop (nat n) (flipd ?r)\<rparr>"
    let ?d = "\<lparr>cards = take (nat n) (cards ?r), flipd = take (nat n) (flipd ?r)\<rparr>"
    let ?h1 = "h[g := ?r'] @ [?d]"
    have c: "call_draw (\<lambda>r. DrawBottom r n) h g = Some (?h1, length h)"
      using call_draw_eq[of g h "\<lambda>r. DrawBottom r n", OF assms(1)] DrawBottom_eq[OF assms(2), of n]
      by simp
    have pd: "parallel (?h1 ! length h)" using lf by (simp add: parallel_def nth_append)
    have "InsertBottom ?h1 g (length h) = Some (?h1[g := \<lparr>cards = cards (?h1 ! length h) @ cards (?h1 ! g),
                   flipd = flipd (?h1 ! length h) @ flipd (?h1 ! g)\<rparr>])"
      using assms(1) pd by (intro InsertBottom_distinct) simp_all
    also have "\<dots> = Some (?h1[g := ?r])"
      using assms(1) by (simp add: nth_append whole)
    also have "\<dots> = Some (h @ [?d])" by (simp only: store_restore[OF assms(1)])
    finally have "InsertBottom ?h1 g (length h) = Some (h @ [?d])" .
    then show "\<exists>h1 ng h2. call_draw (\<lambda>r. DrawBottom r n) h g = Some (h1, ng) \<and>
            InsertBottom h1 g ng = Some h2 \<and> deref h2 g = deref h g \<and> take (length h) h2 = h"
      using c fin[of ?d] by blast
  }
  {
    assume k: "0 \<le> k \<and> k \<le> Len ?r"
    let ?r' = "\<lparr>cards = drop (nat k) (cards ?r), flipd = drop (nat k) (flipd ?r)\<rparr>"
    let ?d = "\<lparr>cards = take (nat k) (cards ?r), flipd = take (nat k) (flipd ?r)\<rparr>"
    let ?h1 = "h[g := ?r'] @ [?d]"
    have r: "(0::int) \<le> 0" "0 \<le> k" "k \<le> Len ?r" using k by simp_all
    have "DrawAt ?r 0 k = drawAt ?r 0 k" using k by (simp add: DrawAt_def index_def)
    also have "\<dots> = Some (?r', ?d)" using drawAt_eq[OF assms(2) r] by simp
    finally have "DrawAt ?r 0 k = Some (?r', ?d)" .
    then have c: "call_draw (\<lambda>r. DrawAt r 0 k) h g = Some (?h1, length h)"
      using call_draw_eq[of g h "\<lambda>r. DrawAt r 0 k", OF assms(1)] by simp
    have pd: "parallel (?h1 ! length h)" "parallel (?h1 ! g)"
      using lf assms(1) by (simp_all add: parallel_def nth_append)
    have z: "nat (min (max (index (?h1 ! g) 0) 0) (Len (?h1 ! g))) = 0"
      by (simp add: index_def Len_def)
    have "InsertAt ?h1 g 0 (length h) = Some (?h1[g := \<lparr>cards = cards (?h1 ! length h) @ cards (?h1 ! g),
                   flipd = flipd (?h1 ! length h) @ flipd (?h1 ! g)\<rparr>])"
      using InsertAt_distinct[of g ?h1 "length h" 0, unfolded z] assms(1) pd by simp
    also have "\<dots> = Some (?h1[g := ?r])"
      using assms(1) by (simp add: nth_append whole)
    also have "\<dots> = Some (h @ [?d])" by (simp only: store_restore[OF assms(1)])
    finally have "InsertAt ?h1 g 0 (length h) = Some (h @ [?d])" .
    then show "\<exists>h1 ng h2. call_draw (\<lambda>r. DrawAt r 0 k) h g = Some (h1, ng) \<and>
            InsertAt h1 g 0 ng = Some h2 \<and> deref h2 g = deref h g \<and> take (length h) h2 = h"
      using c fin[of ?d] by blast
  }
qed

text \<open>
  On the group with two cards and three directions that \<^verbatim>\<open>g.InsertBottom(g)\<close> leaves,
  the two other pairs of methods still give the group back.
\<close>

lemma draw_bottom_and_at_after_self_insert:
  "call_draw (\<lambda>r. DrawBottom r 1)
       [\<lparr>cards = [card King Spades, card King Spades], flipd = [True, False, True]\<rparr>] 0 =
     Some ([\<lparr>cards = [card King Spades], flipd = [False, True]\<rparr>,
            \<lparr>cards = [card King Spades], flipd = [True]\<rparr>], 1) \<and>
   InsertBottom [\<lparr>cards = [card King Spades], flipd = [False, True]\<rparr>,
                 \<lparr>cards = [card King Spades], flipd = [True]\<rparr>] 0 1 =
     Some [\<lparr>cards = [card King Spades, card King Spades], flipd = [True, False, True]\<rparr>,
           \<lparr>cards = [card King Spades], flipd = [True]\<rparr>] \<and>
   call_draw (\<lambda>r. DrawAt r 0 1)
       [\<lparr>cards = [card King Spades, card King Spades], flipd = [True, False, True]\<rparr>] 0 =
     Some ([\<lparr>cards = [card King Spades], flipd = [False, True]\<rparr>,
            \<lparr>cards = [card King Spades], flipd = [True]\<rparr>], 1) \<and>
   InsertAt [\<lparr>cards = [card King Spades], flipd = [False, True]\<rparr>,
             \<lparr>cards = [card King Spades], flipd = [True]\<rparr>] 0 0 1 =
     Some [\<lparr>cards = [card King Spades, card King Spades], flipd = [True, False, True]\<rparr>,
           \<lparr>cards = [card King Spades], flipd = [True]\<rparr>]"
  by code_simp

text \<open>
  C3. The claim is that on every group \<^verbatim>\<open>h := g.Draw(n)\<close> followed by
  \<^verbatim>\<open>g.Insert(h)\<close> gives back the cards and the directions of \<open>g\<close>. It does not on a
  group whose array of directions is the longer one, and the methods produce such a
  group: \<^verbatim>\<open>g := NewGroup(KS); g.SetFlipped(0, true); g.InsertBottom(g)\<close> leaves the cards
  \<open>[KS, KS]\<close> with the directions \<open>[up, down, up]\<close>. Then \<^verbatim>\<open>h := g.Draw(1)\<close> takes the
  direction at position 1 and closes the gap, and \<^verbatim>\<open>g.Insert(h)\<close> appends it at the
  end: the directions are \<open>[up, up, down]\<close>.
\<close>

theorem C3_draw_insert_after_self_insert:
  "SetFlipped (NewGroup [card King Spades]) 0 True =
     Some \<lparr>cards = [card King Spades], flipd = [True]\<rparr> \<and>
   InsertBottom [\<lparr>cards = [card King Spades], flipd = [True]\<rparr>] 0 0 =
     Some [\<lparr>cards = [card King Spades, card King Spades], flipd = [True, False, True]\<rparr>] \<and>
   call_draw (\<lambda>r. Draw r 1)
       [\<lparr>cards = [card King Spades, card King Spades], flipd = [True, False, True]\<rparr>] 0 =
     Some ([\<lparr>cards = [card King Spades], flipd = [True, True]\<rparr>,
            \<lparr>cards = [card King Spades], flipd = [False]\<rparr>], 1) \<and>
   Insert [\<lparr>cards = [card King Spades], flipd = [True, True]\<rparr>,
           \<lparr>cards = [card King Spades], flipd = [False]\<rparr>] 0 1 =
     Some [\<lparr>cards = [card King Spades, card King Spades], flipd = [True, True, False]\<rparr>,
           \<lparr>cards = [card King Spades], flipd = [False]\<rparr>] \<and>
   deref [\<lparr>cards = [card King Spades, card King Spades], flipd = [True, True, False]\<rparr>,
          \<lparr>cards = [card King Spades], flipd = [False]\<rparr>] 0 \<noteq>
   deref [\<lparr>cards = [card King Spades, card King Spades], flipd = [True, False, True]\<rparr>] 0"
  by code_simp

text \<open>
  C4. The claim is that every method keeps the two arrays of a group at the same length.
  \<^verbatim>\<open>InsertBottom\<close> and \<^verbatim>\<open>InsertAt\<close> do not when the argument is the receiver: they
  store the new \<^verbatim>\<open>g.cards\<close> first and then size the new \<^verbatim>\<open>g.flipd\<close> with
  \<^verbatim>\<open>ng.Len()\<close>, which by then is the doubled length. On a group of one card,
  \<^verbatim>\<open>g.InsertBottom(g)\<close> and \<^verbatim>\<open>g.InsertAt(0, g)\<close> leave two cards and three
  directions. \<^verbatim>\<open>g.Insert(g)\<close>, which appends to both arrays, leaves two and two.
\<close>

theorem C4_insert_self_breaks_parallel:
  "parallel (NewGroup [card King Spades]) \<and>
   InsertBottom [NewGroup [card King Spades]] 0 0 =
     Some [\<lparr>cards = [card King Spades, card King Spades], flipd = [False, False, False]\<rparr>] \<and>
   InsertAt [NewGroup [card King Spades]] 0 0 0 =
     Some [\<lparr>cards = [card King Spades, card King Spades], flipd = [False, False, False]\<rparr>] \<and>
   \<not> parallel \<lparr>cards = [card King Spades, card King Spades], flipd = [False, False, False]\<rparr> \<and>
   Insert [NewGroup [card King Spades]] 0 0 =
     Some [\<lparr>cards = [card King Spades, card King Spades], flipd = [False, False]\<rparr>]"
  by code_simp

text \<open>
  C5. On a group of length \<open>N\<close> whose arrays have the same length, and for every integer
  \<open>n\<close>, \<^verbatim>\<open>Draw(n)\<close> and \<^verbatim>\<open>DrawBottom(n)\<close> return. With \<open>m = min (max n 0) N\<close>,
  \<^verbatim>\<open>Draw\<close> returns the top \<open>m\<close> cards and \<^verbatim>\<open>DrawBottom\<close> the bottom \<open>m\<close> cards, in
  their order and with their directions, and leaves the other \<open>N - m\<close> cards in the
  receiver.
\<close>

theorem C5_Draw_clamped:
  assumes "parallel g"
  shows "Draw g n =
           Some (\<lparr>cards = take (nat (Len g - min (max n 0) (Len g))) (cards g),
                  flipd = take (nat (Len g - min (max n 0) (Len g))) (flipd g)\<rparr>,
                 \<lparr>cards = drop (nat (Len g - min (max n 0) (Len g))) (cards g),
                  flipd = drop (nat (Len g - min (max n 0) (Len g))) (flipd g)\<rparr>) \<and>
         DrawBottom g n =
           Some (\<lparr>cards = drop (nat (min (max n 0) (Len g))) (cards g),
                  flipd = drop (nat (min (max n 0) (Len g))) (flipd g)\<rparr>,
                 \<lparr>cards = take (nat (min (max n 0) (Len g))) (cards g),
                  flipd = take (nat (min (max n 0) (Len g))) (flipd g)\<rparr>) \<and>
         (\<forall>g' h. Draw g n = Some (g', h) \<or> DrawBottom g n = Some (g', h) \<longrightarrow>
            Len g' = Len g - min (max n 0) (Len g) \<and> Len h = min (max n 0) (Len g) \<and>
            parallel g' \<and> parallel h)"
proof -
  let ?m = "min (max n 0) (Len g)"
  have lf: "length (flipd g) = length (cards g)" using assms by (simp add: parallel_def)
  have a: "nat (Len g - ?m) = length (cards g) - nat n" by (auto simp: Len_def)
  have b: "take (nat ?m) xs = take (nat n) xs" "drop (nat ?m) xs = drop (nat n) xs"
    if "length xs = length (cards g)" for xs :: "'a list"
    using that by (auto simp: Len_def min_def max_def)
  have D: "Draw g n =
           Some (\<lparr>cards = take (nat (Len g - ?m)) (cards g),
                  flipd = take (nat (Len g - ?m)) (flipd g)\<rparr>,
                 \<lparr>cards = drop (nat (Len g - ?m)) (cards g),
                  flipd = drop (nat (Len g - ?m)) (flipd g)\<rparr>)"
    unfolding a by (rule Draw_eq[OF assms])
  have B: "DrawBottom g n =
           Some (\<lparr>cards = drop (nat ?m) (cards g), flipd = drop (nat ?m) (flipd g)\<rparr>,
                 \<lparr>cards = take (nat ?m) (cards g), flipd = take (nat ?m) (flipd g)\<rparr>)"
    unfolding b[OF refl] b[OF lf] by (rule DrawBottom_eq[OF assms])
  have L: "Len g' = Len g - ?m \<and> Len h = ?m \<and> parallel g' \<and> parallel h"
    if "Draw g n = Some (g', h) \<or> DrawBottom g n = Some (g', h)" for g' h
    using that
  proof
    assume "Draw g n = Some (g', h)"
    then have "g' = \<lparr>cards = take (nat (Len g - ?m)) (cards g),
                  flipd = take (nat (Len g - ?m)) (flipd g)\<rparr>"
      "h = \<lparr>cards = drop (nat (Len g - ?m)) (cards g),
                  flipd = drop (nat (Len g - ?m)) (flipd g)\<rparr>"
      using D by simp_all
    then show ?thesis using lf by (auto simp: Len_def parallel_def)
  next
    assume "DrawBottom g n = Some (g', h)"
    then have "g' = \<lparr>cards = drop (nat ?m) (cards g), flipd = drop (nat ?m) (flipd g)\<rparr>"
      "h = \<lparr>cards = take (nat ?m) (cards g), flipd = take (nat ?m) (flipd g)\<rparr>"
      using B by simp_all
    then show ?thesis using lf by (auto simp: Len_def parallel_def)
  qed
  show ?thesis using D B L by blast
qed

theorem C5_Draw_clamped_witness:
  "Draw (NewGroup [card Ace Spades, card Two Spades, card Three Spades]) 2 =
     Some (\<lparr>cards = [card Ace Spades], flipd = [False]\<rparr>,
           \<lparr>cards = [card Two Spades, card Three Spades], flipd = [False, False]\<rparr>) \<and>
   DrawBottom (NewGroup [card Ace Spades, card Two Spades, card Three Spades]) 7 =
     Some (\<lparr>cards = [], flipd = []\<rparr>,
           \<lparr>cards = [card Ace Spades, card Two Spades, card Three Spades],
            flipd = [False, False, False]\<rparr>) \<and>
   Draw (NewGroup [card Ace Spades, card Two Spades, card Three Spades]) (- 1) =
     Some (\<lparr>cards = [card Ace Spades, card Two Spades, card Three Spades],
            flipd = [False, False, False]\<rparr>,
           \<lparr>cards = [], flipd = []\<rparr>)"
proof -
  let ?g = "NewGroup [card Ace Spades, card Two Spades, card Three Spades]"
  have p: "parallel ?g" by (simp add: parallel_def NewGroup_def)
  show ?thesis
    using C5_Draw_clamped[OF p, of 2, THEN conjunct1]
      C5_Draw_clamped[OF p, of 7, THEN conjunct2, THEN conjunct1]
      C5_Draw_clamped[OF p, of "- 1", THEN conjunct1]
    by (simp add: NewGroup_def Len_def)
qed

text \<open>
  C6. \<^verbatim>\<open>Card(i)\<close> never panics. It normalises a negative \<open>i\<close> to \<open>i + Len\<close>, and
  returns the card at that position when the position is inside the group, and nil
  otherwise. On a group that is not empty \<^verbatim>\<open>Card(-1)\<close> is \<^verbatim>\<open>Card(Len() - 1)\<close>, the top
  card; on the empty group every \<^verbatim>\<open>Card(i)\<close> is nil.
\<close>

theorem C6_Card_index:
  "index g i = (if i < 0 then i + Len g else i) \<and>
   (in_range (cards g) (index g i) \<longrightarrow> Card g i = cards g ! nat (index g i)) \<and>
   (\<not> in_range (cards g) (index g i) \<longrightarrow> Card g i = nil) \<and>
   (cards g \<noteq> [] \<longrightarrow> Card g (- 1) = Card g (Len g - 1) \<and> Card g (- 1) = last (cards g)) \<and>
   (cards g = [] \<longrightarrow> Card g i = nil)"
proof -
  have "cards g \<noteq> [] \<Longrightarrow> Card g (- 1) = last (cards g)"
    by (simp add: Card_def index_def Let_def last_conv_nth nat_diff_distrib')
  moreover have "cards g \<noteq> [] \<Longrightarrow> Card g (Len g - 1) = last (cards g)"
    by (simp add: Card_def index_def Len_def Let_def last_conv_nth nat_diff_distrib')
  ultimately show ?thesis
    by (auto simp: Card_def index_def Len_def in_range_def Let_def)
qed

theorem C6_Card_index_witness:
  "Card (NewGroup [card Ace Spades, joker, card King Clubs]) (- 1) = card King Clubs \<and>
   Card (NewGroup [card Ace Spades, joker, card King Clubs]) 2 = card King Clubs \<and>
   Card (NewGroup [card Ace Spades, joker, card King Clubs]) (- 3) = card Ace Spades \<and>
   Card (NewGroup [card Ace Spades, joker, card King Clubs]) 3 = nil \<and>
   Card (NewGroup [card Ace Spades, joker, card King Clubs]) (- 4) = nil \<and>
   Card (NewGroup []) 0 = nil"
  using C6_Card_index[of "NewGroup [card Ace Spades, joker, card King Clubs]" "- 1"]
    C6_Card_index[of "NewGroup [card Ace Spades, joker, card King Clubs]" 2]
    C6_Card_index[of "NewGroup [card Ace Spades, joker, card King Clubs]" "- 3"]
    C6_Card_index[of "NewGroup [card Ace Spades, joker, card King Clubs]" 3]
    C6_Card_index[of "NewGroup [card Ace Spades, joker, card King Clubs]" "- 4"]
    C6_Card_index[of "NewGroup []" 0]
  by (simp add: NewGroup_def index_def in_range_def Len_def)

text \<open>
  C7. \<^verbatim>\<open>NewStandardDeck\<close> returns a group of 52 cards, none of them a joker, all face
  down: positions 0 to 12 are the Spades from Ace to King, 13 to 25 the Hearts, 26 to 38
  the Diamonds and 39 to 51 the Clubs.
\<close>

theorem C7_NewStandardDeck:
  "NewStandardDeck =
     Some \<lparr>cards = concat (map (\<lambda>s. map (\<lambda>r. card r s)
                [Ace, Two, Three, Four, Five, Six, Seven, Eight, Nine, Ten, Jack, Queen, King])
                [Spades, Hearts, Diamonds, Clubs]),
           flipd = replicate 52 False\<rparr> \<and>
   map_option (\<lambda>d. length (cards d)) NewStandardDeck = Some 52 \<and>
   map_option (\<lambda>d. list_all (\<lambda>c. Card_Joker c = Some False) (cards d)) NewStandardDeck = Some True \<and>
   map_option (\<lambda>d. list_all (\<lambda>f. f = False) (flipd d)) NewStandardDeck = Some True \<and>
   map_option (\<lambda>d. map (\<lambda>k. cards d ! k) [0..<13]) NewStandardDeck =
     Some (map (\<lambda>r. card r Spades) [Ace, Two, Three, Four, Five, Six, Seven, Eight, Nine, Ten, Jack, Queen, King]) \<and>
   map_option (\<lambda>d. map (\<lambda>k. cards d ! k) [13..<26]) NewStandardDeck =
     Some (map (\<lambda>r. card r Hearts) [Ace, Two, Three, Four, Five, Six, Seven, Eight, Nine, Ten, Jack, Queen, King]) \<and>
   map_option (\<lambda>d. map (\<lambda>k. cards d ! k) [26..<39]) NewStandardDeck =
     Some (map (\<lambda>r. card r Diamonds) [Ace, Two, Three, Four, Five, Six, Seven, Eight, Nine, Ten, Jack, Queen, King]) \<and>
   map_option (\<lambda>d. map (\<lambda>k. cards d ! k) [39..<52]) NewStandardDeck =
     Some (map (\<lambda>r. card r Clubs) [Ace, Two, Three, Four, Five, Six, Seven, Eight, Nine, Ten, Jack, Queen, King])"
  by code_simp

text \<open>
  C8. For two positions inside the group, \<^verbatim>\<open>Less(i, j)\<close> is true when the card at \<open>i\<close>
  is a joker and the card at \<open>j\<close> is a standard card, false the other way round and
  false for two jokers; for two standard cards it compares the suits
  (\<open>Spades = 1 < Hearts = 2 < Diamonds = 3 < Clubs = 4\<close>) and, when they are equal, the
  ranks. Hence in a group that is sorted by this comparator (no card is \<^verbatim>\<open>Less\<close> than
  the card just below it, which is what \<^verbatim>\<open>sort.IsSorted\<close> tests) every joker lies below
  every standard card, and the standard cards ascend by suit and then by rank.
\<close>

theorem C8_Less_order:
  assumes "in_range (cards g) (index g i)" and "in_range (cards g) (index g j)"
  shows "(cards g ! nat (index g i) = joker \<and> cards g ! nat (index g j) = card rj sj
            \<longrightarrow> Less g i j = Some True) \<and>
         (cards g ! nat (index g i) = card ri si \<and> cards g ! nat (index g j) = joker
            \<longrightarrow> Less g i j = Some False) \<and>
         (cards g ! nat (index g i) = joker \<and> cards g ! nat (index g j) = joker
            \<longrightarrow> Less g i j = Some False) \<and>
         (cards g ! nat (index g i) = card ri si \<and> cards g ! nat (index g j) = card rj sj
            \<longrightarrow> Less g i j = Some (si < sj \<or> (si = sj \<and> ri < rj))) \<and>
         Spades = 1 \<and> Hearts = 2 \<and> Diamonds = 3 \<and> Clubs = 4 \<and>
         Spades < Hearts \<and> Hearts < Diamonds \<and> Diamonds < Clubs \<and>
         ((\<forall>k. 0 < k \<and> k < Len g \<longrightarrow> Less g k (k - 1) = Some False) \<longrightarrow>
          (\<forall>a b. a < b \<and> b < length (cards g) \<longrightarrow>
             (cards g ! b = joker \<longrightarrow> cards g ! a = joker) \<and>
             (\<forall>ra sa rb sb. cards g ! a = card ra sa \<and> cards g ! b = card rb sb
                \<longrightarrow> sa < sb \<or> (sa = sb \<and> ra \<le> rb))))"
proof -
  have cmp: "Less g i j = Some True"
    if "cards g ! nat (index g i) = joker \<and> cards g ! nat (index g j) = card rj sj"
    using that assms by (simp add: Less_def Let_def and_also_def)
  have cmp2: "Less g i j = Some False"
    if "cards g ! nat (index g i) = card ri si \<and> cards g ! nat (index g j) = joker"
    using that assms by (simp add: Less_def Let_def and_also_def)
  have cmp3: "Less g i j = Some False"
    if "cards g ! nat (index g i) = joker \<and> cards g ! nat (index g j) = joker"
    using that assms by (simp add: Less_def Let_def and_also_def)
  have cmp4: "Less g i j = Some (si < sj \<or> (si = sj \<and> ri < rj))"
    if "cards g ! nat (index g i) = card ri si \<and> cards g ! nat (index g j) = card rj sj"
    using that assms by (auto simp: Less_def Let_def and_also_def)
  have suits: "Spades = 1 \<and> Hearts = 2 \<and> Diamonds = 3 \<and> Clubs = 4 \<and>
         Spades < Hearts \<and> Hearts < Diamonds \<and> Diamonds < Clubs"
    by (simp add: Spades_def Hearts_def Diamonds_def Clubs_def)
  have srt: "(cards g ! b = joker \<longrightarrow> cards g ! a = joker) \<and>
             (\<forall>ra sa rb sb. cards g ! a = card ra sa \<and> cards g ! b = card rb sb
                \<longrightarrow> sa < sb \<or> (sa = sb \<and> ra \<le> rb))"
    if adj: "\<forall>k. 0 < k \<and> k < Len g \<longrightarrow> Less g k (k - 1) = Some False"
      and ab: "a < b \<and> b < length (cards g)" for a b
  proof -
    have two: "2 \<le> length (cards g)" using ab by simp
    have le: "order_key (cards g ! a) \<le> order_key (cards g ! b)"
      using order_key_sorted(1)[OF adj] ab by (simp add: sorted_iff_nth_mono)
    have nn: "cards g ! a \<noteq> nil" "cards g ! b \<noteq> nil"
      using order_key_sorted(2)[OF adj two] ab by (auto simp: in_set_conv_nth)
    have bnd: "unat r < 256" for r :: "8 word" using unsigned_less[of r, where ?'a = nat] by simp
    have j: "cards g ! a = joker" if "cards g ! b = joker"
      using le nn that by (cases "cards g ! a") (simp_all add: order_key_def)
    have c: "sa < sb \<or> (sa = sb \<and> ra \<le> rb)"
      if "cards g ! a = card ra sa \<and> cards g ! b = card rb sb" for ra sa rb sb
    proof -
      have l: "unat sa * 256 + unat ra \<le> unat sb * 256 + unat rb"
        using le that by (simp add: order_key_def)
      show ?thesis
      proof (cases "sa = sb")
        case True
        then show ?thesis using l by (simp add: word_le_nat_alt)
      next
        case False
        then have "unat sa \<noteq> unat sb" by (simp add: word_unat_eq_iff)
        then have "unat sa < unat sb" using l bnd[of ra] bnd[of rb] by auto
        then show ?thesis by (simp add: word_less_nat_alt)
      qed
    qed
    show ?thesis using j c by blast
  qed
  show ?thesis using cmp cmp2 cmp3 cmp4 suits srt by blast
qed

theorem C8_Less_order_witness:
  "Less (NewGroup [joker, card King Spades, card Two Hearts, card Three Hearts]) 0 1 = Some True \<and>
   Less (NewGroup [joker, card King Spades, card Two Hearts, card Three Hearts]) 1 0 = Some False \<and>
   Less (NewGroup [joker, card King Spades, card Two Hearts, card Three Hearts]) 0 0 = Some False \<and>
   Less (NewGroup [joker, card King Spades, card Two Hearts, card Three Hearts]) 1 2 = Some True \<and>
   Less (NewGroup [joker, card King Spades, card Two Hearts, card Three Hearts]) 2 (- 1) = Some True \<and>
   Less (NewGroup [joker, card King Spades, card Two Hearts, card Three Hearts]) (- 1) 2 = Some False"
proof -
  let ?g = "NewGroup [joker, card King Spades, card Two Hearts, card Three Hearts]"
  have r: "in_range (cards ?g) (index ?g 0)" "in_range (cards ?g) (index ?g 1)"
    "in_range (cards ?g) (index ?g 2)" "in_range (cards ?g) (index ?g (- 1))"
    by (simp_all add: in_range_def index_def NewGroup_def)
  have v: "cards ?g ! nat (index ?g 0) = joker" "cards ?g ! nat (index ?g 1) = card King Spades"
    "cards ?g ! nat (index ?g 2) = card Two Hearts" "cards ?g ! nat (index ?g (- 1)) = card Three Hearts"
    by (simp_all add: index_def NewGroup_def)
  have s: "(Spades < Hearts \<or> Spades = Hearts \<and> King < Two) = True"
    "(Hearts < Hearts \<or> Hearts = Hearts \<and> Two < Three) = True"
    "(Hearts < Hearts \<or> Hearts = Hearts \<and> Three < Two) = False"
    by (simp_all add: Spades_def Hearts_def Two_def Three_def)
  note t = C8_Less_order[where g = ?g]
  have a: "Less ?g 0 1 = Some True"
    by (rule t[OF r(1) r(2), where rj = King and sj = Spades, THEN conjunct1, THEN mp])
       (simp add: v)
  have b: "Less ?g 1 0 = Some False"
    by (rule t[OF r(2) r(1), where ri = King and si = Spades, THEN conjunct2, THEN conjunct1, THEN mp])
       (simp add: v)
  have c: "Less ?g 0 0 = Some False"
    by (rule t[OF r(1) r(1), THEN conjunct2, THEN conjunct2, THEN conjunct1, THEN mp])
       (simp add: v)
  have d: "Less ?g 1 2 = Some (Spades < Hearts \<or> Spades = Hearts \<and> King < Two)"
    by (rule t[OF r(2) r(3), where ri = King and si = Spades and rj = Two and sj = Hearts,
          THEN conjunct2, THEN conjunct2, THEN conjunct2, THEN conjunct1, THEN mp])
       (simp add: v)
  have e: "Less ?g 2 (- 1) = Some (Hearts < Hearts \<or> Hearts = Hearts \<and> Two < Three)"
    by (rule t[OF r(3) r(4), where ri = Two and si = Hearts and rj = Three and sj = Hearts,
          THEN conjunct2, THEN conjunct2, THEN conjunct2, THEN conjunct1, THEN mp])
       (simp add: v)
  have f: "Less ?g (- 1) 2 = Some (Hearts < Hearts \<or> Hearts = Hearts \<and> Three < Two)"
    by (rule t[OF r(4) r(3), where ri = Three and si = Hearts and rj = Two and sj = Hearts,
          THEN conjunct2, THEN conjunct2, THEN conjunct2, THEN conjunct1, THEN mp])
       (simp add: v)
  show ?thesis using a b c d e f unfolding s by (intro conjI)
qed

text \<open>
  C9. \<^verbatim>\<open>PerfectShuffle\<close> runs \<open>i\<close> from \<open>Len - 1\<close> down to \<open>1\<close> and swaps position
  \<open>i\<close> with the sampled position. When every sample for \<open>i\<close> is a number of
  \<open>[0, i]\<close>, it returns, and the result is a permutation of the group: the multiset of
  cards with their directions is the same, and so are the lengths of the two arrays.
\<close>

theorem C9_PerfectShuffle_permutes:
  assumes "parallel g"
    and "\<forall>i. 0 < i \<and> i < Len g \<longrightarrow> (\<exists>j. rnd (i + 1) = Some j \<and> 0 \<le> j \<and> j \<le> i)"
  shows "PerfectShuffle rnd g =
           fold (\<lambda>i acc. acc \<bind> (\<lambda>g. rnd (int i + 1) \<bind> Swap g (int i)))
             (rev [1..<length (cards g)]) (Some g) \<and>
         (\<exists>g'. PerfectShuffle rnd g = Some g' \<and>
            mset (faces g') = mset (faces g) \<and>
            length (cards g') = length (cards g) \<and> length (flipd g') = length (flipd g))"
proof
  show "PerfectShuffle rnd g =
           fold (\<lambda>i acc. acc \<bind> (\<lambda>g. rnd (int i + 1) \<bind> Swap g (int i)))
             (rev [1..<length (cards g)]) (Some g)"
  proof (cases "cards g")
    case Nil
    then show ?thesis
      unfolding PerfectShuffle_def by (subst PerfectShuffle_loop.simps) (simp add: Len_def)
  next
    case (Cons c cs)
    then have "Len g - 1 = int (length cs)" "length (cards g) = Suc (length cs)"
      by (simp_all add: Len_def)
    then show ?thesis
      unfolding PerfectShuffle_def using PerfectShuffle_loop_fold[of rnd g "length cs"] by simp
  qed
next
  have "Len g - 1 < Len g" by simp
  moreover have "\<forall>k. 0 < k \<and> k \<le> Len g - 1 \<longrightarrow> (\<exists>j. rnd (k + 1) = Some j \<and> 0 \<le> j \<and> j \<le> k)"
    using assms(2) by auto
  ultimately obtain g' where "PerfectShuffle_loop rnd g (Len g - 1) = Some g'" "parallel g'"
     "length (cards g') = length (cards g)" "mset (faces g') = mset (faces g)"
    using PerfectShuffle_loop_perm[OF assms(1), of "Len g - 1" rnd] by blast
  then show "\<exists>g'. PerfectShuffle rnd g = Some g' \<and>
            mset (faces g') = mset (faces g) \<and>
            length (cards g') = length (cards g) \<and> length (flipd g') = length (flipd g)"
    using assms(1) by (auto simp: PerfectShuffle_def parallel_def)
qed

theorem C9_PerfectShuffle_permutes_witness:
  "PerfectShuffle (\<lambda>m. Some 0)
     \<lparr>cards = [card Ace Spades, card Two Spades, card Three Spades, card Four Spades],
      flipd = [True, False, False, False]\<rparr> =
   Some \<lparr>cards = [card Two Spades, card Three Spades, card Four Spades, card Ace Spades],
         flipd = [False, False, False, True]\<rparr> \<and>
   mset (faces \<lparr>cards = [card Two Spades, card Three Spades, card Four Spades, card Ace Spades],
                flipd = [False, False, False, True]\<rparr>) =
   mset (faces \<lparr>cards = [card Ace Spades, card Two Spades, card Three Spades, card Four Spades],
                flipd = [True, False, False, False]\<rparr>)"
proof -
  let ?g = "\<lparr>cards = [card Ace Spades, card Two Spades, card Three Spades, card Four Spades],
      flipd = [True, False, False, False]\<rparr>"
  let ?r = "\<lparr>cards = [card Two Spades, card Three Spades, card Four Spades, card Ace Spades],
         flipd = [False, False, False, True]\<rparr>"
  have p: "parallel ?g" by (simp add: parallel_def)
  have s: "\<forall>i. 0 < i \<and> i < Len ?g \<longrightarrow> (\<exists>j. (\<lambda>m. Some 0) (i + 1) = Some j \<and> 0 \<le> j \<and> j \<le> i)"
    by simp
  have e: "PerfectShuffle (\<lambda>m. Some 0) ?g = Some ?r" by code_simp
  from C9_PerfectShuffle_permutes[OF p s] obtain g' where
    "PerfectShuffle (\<lambda>m. Some 0) ?g = Some g'" "mset (faces g') = mset (faces ?g)" by blast
  then have "mset (faces ?r) = mset (faces ?g)" using e by simp
  then show ?thesis using e by blast
qed

text \<open>
  C10, as amended. For two different groups \<open>g\<close> and \<open>ng\<close> of the store,
  \<^verbatim>\<open>g.Insert(ng)\<close> and \<^verbatim>\<open>g.InsertBottom(ng)\<close> return and leave \<open>ng\<close> as it was: the
  same cards and the same directions. So does \<^verbatim>\<open>g.InsertAt(i, ng)\<close> whenever it returns,
  and it returns when the arrays of each group have the same length.
\<close>

theorem C10_insert_leaves_argument:
  assumes "g < length h" and "ng < length h" and "g \<noteq> ng"
  shows "(\<exists>h1. Insert h g ng = Some h1 \<and> deref h1 ng = deref h ng) \<and>
         (\<exists>h2. InsertBottom h g ng = Some h2 \<and> deref h2 ng = deref h ng) \<and>
         (parallel (h ! g) \<and> parallel (h ! ng) \<longrightarrow>
            (\<exists>h3. InsertAt h g i ng = Some h3 \<and> deref h3 ng = deref h ng)) \<and>
         (\<forall>h3. InsertAt h g i ng = Some h3 \<longrightarrow> deref h3 ng = deref h ng)"
proof -
  have d: "deref (h[g := x]) ng = deref h ng" for x
    using assms(3) by (simp add: deref_def)
  have "\<exists>h1. Insert h g ng = Some h1 \<and> deref h1 ng = deref h ng"
    using Insert_frame[OF assms(1,2)] d by auto
  moreover have "\<exists>h2. InsertBottom h g ng = Some h2 \<and> deref h2 ng = deref h ng"
    using InsertBottom_frame[OF assms] d by auto
  moreover have "\<exists>h3. InsertAt h g i ng = Some h3 \<and> deref h3 ng = deref h ng"
    if "parallel (h ! g) \<and> parallel (h ! ng)"
    using InsertAt_distinct[OF assms(1,2,3), of i] that d by auto
  moreover have "deref h3 ng = deref h ng" if "InsertAt h g i ng = Some h3" for h3
    using InsertAt_frame[OF that] d by auto
  ultimately show ?thesis by blast
qed

theorem C10_insert_leaves_argument_witness:
  "(\<exists>h1. Insert [NewGroup [card Ace Spades, card Two Spades], NewGroup [joker]] 0 1 = Some h1 \<and>
      deref h1 1 = deref [NewGroup [card Ace Spades, card Two Spades], NewGroup [joker]] 1) \<and>
   (\<exists>h2. InsertBottom [NewGroup [card Ace Spades, card Two Spades], NewGroup [joker]] 0 1 = Some h2 \<and>
      deref h2 1 = deref [NewGroup [card Ace Spades, card Two Spades], NewGroup [joker]] 1) \<and>
   (\<exists>h3. InsertAt [NewGroup [card Ace Spades, card Two Spades], NewGroup [joker]] 0 1 1 = Some h3 \<and>
      deref h3 1 = deref [NewGroup [card Ace Spades, card Two Spades], NewGroup [joker]] 1)"
proof -
  let ?h = "[NewGroup [card Ace Spades, card Two Spades], NewGroup [joker]]"
  have a: "0 < length ?h" "1 < length ?h" "(0::nat) \<noteq> 1" by simp_all
  have p: "parallel (?h ! 0) \<and> parallel (?h ! 1)" by (simp add: parallel_def NewGroup_def)
  show ?thesis using C10_insert_leaves_argument[OF a, of 1] p by blast
qed

text \<open>
  The claim as stated, for every pair of groups, fails when the argument is the receiver:
  after \<^verbatim>\<open>g.Insert(g)\<close> on a group of one card the argument has two cards.
\<close>

theorem C10_insert_self_counterexample:
  "Insert [NewGroup [card King Spades]] 0 0 =
     Some [\<lparr>cards = [card King Spades, card King Spades], flipd = [False, False]\<rparr>] \<and>
   deref [\<lparr>cards = [card King Spades, card King Spades], flipd = [False, False]\<rparr>] 0 \<noteq>
     deref [NewGroup [card King Spades]] 0 \<and>
   Len \<lparr>cards = [card King Spades, card King Spades], flipd = [False, False]\<rparr> = 2 \<and>
   Len (NewGroup [card King Spades]) = 1"
  by (simp add: Insert_def deref_def NewGroup_def Cards_def FlippedArray_def copy_def Len_def)

end
